theory Spec2Isabelle
  imports Main "HOL-Library.AList" "HOL-Library.Sublist"
begin

section \<open>Text\<close>

text \<open>
  A Python \<open>str\<close> is a sequence of Unicode code points.  A code point is a natural
  number here, so that the whitespace test of \<open>\s\<close> and of \<open>str.strip\<close> is the one
  Python applies (\<open>Py_UNICODE_ISSPACE\<close>), also beyond ASCII.  \<open>str_of\<close> turns a string
  literal into such a text, for the examples.
\<close>

type_synonym codepoint = nat
type_synonym str = "codepoint list"

definition str_of :: "string \<Rightarrow> str" where
  "str_of cs = map of_char cs"

definition NL :: codepoint where "NL = 10"        \<comment> \<open>line feed\<close>
definition LBRACK :: codepoint where "LBRACK = 91"   \<comment> \<open>left square bracket\<close>
definition RBRACK :: codepoint where "RBRACK = 93"   \<comment> \<open>right square bracket\<close>
definition COLON :: codepoint where "COLON = 58"
definition LPAREN :: codepoint where "LPAREN = 40"
definition RPAREN :: codepoint where "RPAREN = 41"

text \<open>The code points for which \<open>str.isspace\<close> holds; \<open>\s\<close> of a \<open>str\<close> pattern is the same set.\<close>

definition isspace :: "codepoint \<Rightarrow> bool" where
  "isspace c \<longleftrightarrow>
     (9 \<le> c \<and> c \<le> 13) \<or> (28 \<le> c \<and> c \<le> 32) \<or> c = 133 \<or> c = 160 \<or> c = 5760 \<or>
     (8192 \<le> c \<and> c \<le> 8202) \<or> c = 8232 \<or> c = 8233 \<or> c = 8239 \<or> c = 8287 \<or> c = 12288"

text \<open>\<open>str.strip()\<close> without argument: leading and trailing whitespace removed.\<close>

definition strip :: "str \<Rightarrow> str" where
  "strip s = rev (dropWhile isspace (rev (dropWhile isspace s)))"

section \<open>The regular expressions of the program\<close>

text \<open>
  The two patterns of \<open>process_file\<close> in the form the \<open>re\<close> module compiles them to: a
  sequence of operations, run by a backtracking matcher.  Only the operations these
  patterns use are modelled.  A repetition is always over a one-character set, greedy
  and without upper bound (\<open>+\<close> has minimum 1, \<open>*\<close> minimum 0).
\<close>

datatype charset =
    NOT_LITERAL codepoint    \<comment> \<open>\<open>[^c]\<close>\<close>
  | ANY                      \<comment> \<open>\<open>.\<close> without DOTALL: everything but a line feed\<close>
  | CATEGORY_SPACE           \<comment> \<open>\<open>\s\<close>\<close>

fun in_charset :: "charset \<Rightarrow> codepoint \<Rightarrow> bool" where
  "in_charset (NOT_LITERAL c) x = (x \<noteq> c)"
| "in_charset ANY x = (x \<noteq> NL)"
| "in_charset CATEGORY_SPACE x = isspace x"

datatype op =
    LITERAL codepoint
  | AT_BEGINNING_LINE        \<comment> \<open>\<open>^\<close> under MULTILINE\<close>
  | AT_END_LINE              \<comment> \<open>\<open>$\<close> under MULTILINE\<close>
  | MARK nat                 \<comment> \<open>group \<open>k\<close> opens at mark \<open>2k-2\<close> and closes at mark \<open>2k-1\<close>\<close>
  | MAX_REPEAT nat charset   \<comment> \<open>at least so many characters of the set, as many as possible\<close>

text \<open>
  \<open>try_down f lo n\<close>: the first of \<open>n, n-1, ..., lo\<close> at which \<open>f\<close> succeeds; this is the
  backtracking of a greedy repetition that took \<open>n\<close> characters at first.
\<close>

fun try_down :: "(nat \<Rightarrow> 'a option) \<Rightarrow> nat \<Rightarrow> nat \<Rightarrow> 'a option" where
  "try_down f lo 0 = (if lo = 0 then f 0 else None)"
| "try_down f lo (Suc k) =
     (if Suc k < lo then None
      else case f (Suc k) of Some r \<Rightarrow> Some r | None \<Rightarrow> try_down f lo k)"

text \<open>The character before the position reached after \<open>k\<close> more characters of \<open>s\<close>.\<close>

definition prev_after :: "codepoint option \<Rightarrow> str \<Rightarrow> nat \<Rightarrow> codepoint option" where
  "prev_after prev s k = (if k = 0 \<or> length s < k then prev else Some (s ! (k - 1)))"

text \<open>
  \<open>sre_match ops prev s i mk\<close> runs the operations at a position of the subject: \<open>prev\<close>
  is the character before the position (\<open>None\<close> at the start of the string), \<open>s\<close> the
  text from the position on, \<open>i\<close> the number of characters matched so far and \<open>mk\<close> the
  marks set so far.  The result is the length of the match and its marks.
\<close>

fun sre_match :: "op list \<Rightarrow> codepoint option \<Rightarrow> str \<Rightarrow> nat \<Rightarrow> (nat \<Rightarrow> nat)
    \<Rightarrow> (nat \<times> (nat \<Rightarrow> nat)) option" where
  "sre_match [] prev s i mk = Some (i, mk)"
| "sre_match (LITERAL c # ops) prev s i mk =
     (case s of [] \<Rightarrow> None
      | x # xs \<Rightarrow> if x = c then sre_match ops (Some x) xs (Suc i) mk else None)"
| "sre_match (AT_BEGINNING_LINE # ops) prev s i mk =
     (if prev = None \<or> prev = Some NL then sre_match ops prev s i mk else None)"
| "sre_match (AT_END_LINE # ops) prev s i mk =
     (case s of [] \<Rightarrow> sre_match ops prev s i mk
      | x # xs \<Rightarrow> if x = NL then sre_match ops prev s i mk else None)"
| "sre_match (MARK k # ops) prev s i mk = sre_match ops prev s i (mk(k := i))"
| "sre_match (MAX_REPEAT lo cs # ops) prev s i mk =
     try_down (\<lambda>k. sre_match ops (prev_after prev s k) (drop k s) (i + k) mk) lo
       (length (takeWhile (in_charset cs) s))"

text \<open>A match object: \<open>group(0)\<close>, \<open>group(1)\<close> and \<open>group(2)\<close>; both patterns have two groups.\<close>

record match_obj =
  group0 :: str
  group1 :: str
  group2 :: str

definition slice :: "str \<Rightarrow> nat \<Rightarrow> nat \<Rightarrow> str" where
  "slice s b e = take (e - b) (drop b s)"

text \<open>One match attempt at a position: the length of the match and the match object.\<close>

definition match_at :: "op list \<Rightarrow> codepoint option \<Rightarrow> str \<Rightarrow> (nat \<times> match_obj) option" where
  "match_at p prev s =
     (case sre_match p prev s 0 (\<lambda>_. 0) of
        None \<Rightarrow> None
      | Some (n, mk) \<Rightarrow>
          Some (n, \<lparr>group0 = take n s, group1 = slice s (mk 0) (mk 1),
                    group2 = slice s (mk 2) (mk 3)\<rparr>))"

text \<open>
  The scan that \<open>re.findall\<close> and \<open>re.sub\<close> share: the leftmost match from the current
  position, then the leftmost match after its end, and so on; matches do not overlap.
  The result lists the matches and, character by character, the text between them.  An
  empty match is recorded and the scan moves on by one character; no pattern of this
  program matches the empty string, so that branch is never taken here.
\<close>

datatype seg = Gap codepoint | Match match_obj

function scan :: "op list \<Rightarrow> codepoint option \<Rightarrow> str \<Rightarrow> seg list" where
  "scan p prev [] = (case match_at p prev [] of None \<Rightarrow> [] | Some (n, m) \<Rightarrow> [Match m])"
| "scan p prev (c # cs) =
     (case match_at p prev (c # cs) of
        None \<Rightarrow> Gap c # scan p (Some c) cs
      | Some (n, m) \<Rightarrow>
          if n = 0 then Match m # Gap c # scan p (Some c) cs
          else Match m # scan p (prev_after prev (c # cs) n) (drop n (c # cs)))"
  by pat_completeness auto
termination
  by (relation "measure (\<lambda>(p, prev, s). length s)") auto

text \<open>\<open>re.findall\<close> of a pattern with two groups: the pairs of the groups of each match.\<close>

fun groups_of :: "seg list \<Rightarrow> (str \<times> str) list" where
  "groups_of [] = []"
| "groups_of (Gap c # segs) = groups_of segs"
| "groups_of (Match m # segs) = (group1 m, group2 m) # groups_of segs"

definition re_findall :: "op list \<Rightarrow> str \<Rightarrow> (str \<times> str) list" where
  "re_findall p s = groups_of (scan p None s)"

text \<open>\<open>re.sub\<close> with a function as replacement: the text between matches is copied.\<close>

fun expand :: "(match_obj \<Rightarrow> str) \<Rightarrow> seg list \<Rightarrow> str" where
  "expand repl [] = []"
| "expand repl (Gap c # segs) = c # expand repl segs"
| "expand repl (Match m # segs) = repl m @ expand repl segs"

definition re_sub :: "op list \<Rightarrow> (match_obj \<Rightarrow> str) \<Rightarrow> str \<Rightarrow> str" where
  "re_sub p repl s = expand repl (scan p None s)"

text \<open>\<open>^\[([^\]]+)\]:\s*(.+)$\<close> with \<open>re.MULTILINE\<close>\<close>

definition reference_pattern :: "op list" where
  "reference_pattern =
     [AT_BEGINNING_LINE, LITERAL LBRACK, MARK 0, MAX_REPEAT 1 (NOT_LITERAL RBRACK), MARK 1,
      LITERAL RBRACK, LITERAL COLON, MAX_REPEAT 0 CATEGORY_SPACE,
      MARK 2, MAX_REPEAT 1 ANY, MARK 3, AT_END_LINE]"

text \<open>\<open>\[([^\]]+)\]\[([^\]]+)\]\<close>\<close>

definition usage_pattern :: "op list" where
  "usage_pattern =
     [LITERAL LBRACK, MARK 0, MAX_REPEAT 1 (NOT_LITERAL RBRACK), MARK 1, LITERAL RBRACK,
      LITERAL LBRACK, MARK 2, MAX_REPEAT 1 (NOT_LITERAL RBRACK), MARK 3, LITERAL RBRACK]"

section \<open>process\_file\<close>

text \<open>
  \<open>dict(pairs)\<close>: the pairs are inserted in order, a later value replaces an earlier one
  of the same key.
\<close>

definition dict :: "(str \<times> str) list \<Rightarrow> (str \<times> str) list" where
  "dict pairs = foldl (\<lambda>d (k, v). AList.update k v d) [] pairs"

text \<open>The nested function \<open>replace_link\<close>, with the table it closes over as a parameter.\<close>

definition replace_link :: "(str \<times> str) list \<Rightarrow> match_obj \<Rightarrow> str" where
  "replace_link reference_links m =
     (let text = group1 m; ref_key = group2 m in
      case map_of reference_links ref_key of
        Some url \<Rightarrow> [LBRACK] @ text @ [RBRACK, LPAREN] @ url @ [RPAREN]
      | None \<Rightarrow> group0 m)"

text \<open>
  What \<open>process_file\<close> does with \<open>content\<close>, the text that \<open>f.read()\<close> returned (reading
  and writing the files, and the log, are not part of the model): either it prints
  "No reference links found to convert." and returns without writing, or it writes the
  updated content to the output file.
\<close>

datatype outcome = No_reference_links | Written str

definition process_file :: "str \<Rightarrow> outcome" where
  "process_file content =
     (let reference_links = dict (re_findall reference_pattern content) in
      if reference_links = [] then No_reference_links
      else
        let updated_content = re_sub usage_pattern (replace_link reference_links) content;
            updated_content = strip (re_sub reference_pattern (\<lambda>m. []) updated_content)
        in Written updated_content)"

text \<open>
  The content of the output file after \<open>main\<close>: \<open>duplicate_file\<close> has copied the input
  there before \<open>process_file\<close> runs, so the copy stays when nothing is written.
\<close>

definition output_text :: "str \<Rightarrow> str" where
  "output_text content =
     (case process_file content of No_reference_links \<Rightarrow> content | Written u \<Rightarrow> u)"

section \<open>process\_file with the exception of the table lookup written out\<close>








section \<open>Notions used to state and prove the properties\<close>

text \<open>A position is at the beginning of a line when nothing or a line feed precedes it.\<close>

definition bol :: "codepoint option \<Rightarrow> bool" where
  "bol prev \<longleftrightarrow> prev = None \<or> prev = Some NL"

text \<open>The character before the position that follows the text \<open>a\<close>.\<close>

definition prev_of :: "codepoint option \<Rightarrow> str \<Rightarrow> codepoint option" where
  "prev_of prev a = (if a = [] then prev else Some (last a))"

text \<open>The text a segment of a scan stands for.\<close>

fun seg_text :: "seg \<Rightarrow> str" where
  "seg_text (Gap c) = [c]"
| "seg_text (Match m) = group0 m"

text \<open>The text of a usage \<open>[T][r]\<close> and of an inline link \<open>[T](U)\<close>.\<close>

definition usage_text :: "str \<Rightarrow> str \<Rightarrow> str" where
  "usage_text T r = [LBRACK] @ T @ [RBRACK, LBRACK] @ r @ [RBRACK]"

definition inline_link :: "str \<Rightarrow> str \<Rightarrow> str" where
  "inline_link T U = [LBRACK] @ T @ [RBRACK, LPAREN] @ U @ [RPAREN]"

text \<open>
  The stripping pass \<open>re.sub(reference pattern, "", text)\<close>, from any position of the scan:
  every match is replaced by the empty string.
\<close>

definition strip_defs :: "codepoint option \<Rightarrow> str \<Rightarrow> str" where
  "strip_defs prev s = expand (\<lambda>m. []) (scan reference_pattern prev s)"

text \<open>A scan without match.\<close>

definition no_match :: "seg list \<Rightarrow> bool" where
  "no_match segs \<longleftrightarrow> (\<forall>m. Match m \<notin> set segs)"

text \<open>
  The scan of \<open>a @ b\<close> arrives at the position between \<open>a\<close> and \<open>b\<close>: its segments
  split into segments that cover exactly \<open>a\<close> and the scan of \<open>b\<close> from there.  This fails
  only when a match that starts in \<open>a\<close> ends inside \<open>b\<close>.
\<close>

definition scan_reaches :: "op list \<Rightarrow> codepoint option \<Rightarrow> str \<Rightarrow> str \<Rightarrow> bool" where
  "scan_reaches p prev a b \<longleftrightarrow>
     (\<exists>segs. scan p prev (a @ b) = segs @ scan p (prev_of prev a) b \<and>
             concat (map seg_text segs) = a)"

text \<open>
  Where the whitespace after the colon of a definition ends and its target starts, as
  the backtracking of \<open>\s*(.+)$\<close> settles it: the last position within the leading
  whitespace (or right after it) that is followed by a character other than a line feed.
\<close>

definition target_offset :: "str \<Rightarrow> nat option" where
  "target_offset s =
     try_down (\<lambda>k. if takeWhile (\<lambda>x. x \<noteq> NL) (drop k s) = [] then None else Some k) 0
       (length (takeWhile isspace s))"

text \<open>
  The text at a position has the form of a reference definition: a bracket, a non-empty
  key without closing bracket, \<open>]:\<close>, and a remainder that is not only line feeds.
\<close>

fun key_tail :: "str \<Rightarrow> bool" where
  "key_tail [] = False"
| "key_tail (x # xs) =
     (if x = RBRACK then (case xs of [] \<Rightarrow> False | y # r \<Rightarrow> y = COLON \<and> (\<exists>c\<in>set r. c \<noteq> NL))
      else key_tail xs)"

fun def_start :: "str \<Rightarrow> bool" where
  "def_start (c # x # xs) = (c = LBRACK \<and> x \<noteq> RBRACK \<and> key_tail xs)"
| "def_start _ = False"


text \<open>Some line of the document starts with a reference definition.\<close>

definition has_definition :: "str \<Rightarrow> bool" where
  "has_definition content \<longleftrightarrow>
     (\<exists>a b. content = a @ b \<and> bol (prev_of None a) \<and> def_start b)"

text \<open>The lines of a text, as \<open>str.split("\n")\<close> gives them.\<close>

fun split_lines :: "str \<Rightarrow> str list" where
  "split_lines [] = [[]]"
| "split_lines (c # cs) =
     (if c = NL then [] # split_lines cs
      else (case split_lines cs of [] \<Rightarrow> [[c]] | l # ls \<Rightarrow> (c # l) # ls))"

text \<open>
  A line that, taken alone, is a reference definition \<open>[ref]: target\<close>: the reference
  pattern matches at its start.  A document has a definition line when one of its lines
  is of this kind.
\<close>

definition definition_line :: "str \<Rightarrow> bool" where
  "definition_line l \<longleftrightarrow> match_at reference_pattern None l \<noteq> None"

definition has_definition_line :: "str \<Rightarrow> bool" where
  "has_definition_line content \<longleftrightarrow> (\<exists>l\<in>set (split_lines content). definition_line l)"

section \<open>The greedy repetition and the matcher\<close>

lemma try_down_top: "lo \<le> n \<Longrightarrow> f n = Some r \<Longrightarrow> try_down f lo n = Some r"
  by (cases n) auto

lemma try_down_Some:
  "try_down f lo n = Some r \<Longrightarrow>
     \<exists>k. lo \<le> k \<and> k \<le> n \<and> f k = Some r \<and> (\<forall>j. k < j \<and> j \<le> n \<longrightarrow> f j = None)"
proof (induction n)
  case 0
  then show ?case by (auto split: if_splits)
next
  case (Suc n)
  show ?case
  proof (cases "f (Suc n)")
    case None
    with Suc.prems have "try_down f lo n = Some r" by (auto split: if_splits)
    from Suc.IH[OF this] obtain k where k: "lo \<le> k" "k \<le> n" "f k = Some r"
      "\<forall>j. k < j \<and> j \<le> n \<longrightarrow> f j = None" by blast
    have "\<forall>j. k < j \<and> j \<le> Suc n \<longrightarrow> f j = None"
      using k(4) None by (auto simp: le_Suc_eq)
    with k show ?thesis by (intro exI[of _ k]) auto
  next
    case (Some a)
    with Suc.prems have "a = r" "lo \<le> Suc n" by (auto split: if_splits)
    with Some show ?thesis by (intro exI[of _ "Suc n"]) auto
  qed
qed

lemma try_down_None_iff:
  "try_down f lo n = None \<longleftrightarrow> (\<forall>k. lo \<le> k \<and> k \<le> n \<longrightarrow> f k = None)"
proof (induction n)
  case 0
  then show ?case by auto
next
  case (Suc n)
  show ?case
  proof (cases "Suc n < lo")
    case True
    then show ?thesis by auto
  next
    case False
    show ?thesis
    proof (cases "f (Suc n)")
      case None
      then have "try_down f lo (Suc n) = try_down f lo n" using False by simp
      moreover have "(\<forall>k. lo \<le> k \<and> k \<le> Suc n \<longrightarrow> f k = None) \<longleftrightarrow>
          (\<forall>k. lo \<le> k \<and> k \<le> n \<longrightarrow> f k = None)"
        using None by (auto simp: le_Suc_eq)
      ultimately show ?thesis using Suc.IH by simp
    next
      case (Some a)
      then have "try_down f lo (Suc n) = Some a" using False by simp
      moreover have "lo \<le> Suc n" using False by simp
      ultimately show ?thesis using Some by auto
    qed
  qed
qed

lemma try_down_only_top:
  assumes "\<And>k. k < n \<Longrightarrow> f k = None"
  shows "try_down f lo n = (if lo \<le> n then f n else None)"
proof (cases "try_down f lo n")
  case None
  then show ?thesis by (auto simp: try_down_None_iff)
next
  case (Some r)
  from try_down_Some[OF this] obtain k where "lo \<le> k" "k \<le> n" "f k = Some r" by blast
  with assms have "k = n" by (cases "k < n") auto
  with \<open>f k = Some r\<close> \<open>lo \<le> k\<close> Some show ?thesis by simp
qed

lemma sre_match_bounds:
  "sre_match ops prev s i mk = Some (n, mk') \<Longrightarrow> i \<le> n \<and> n \<le> i + length s"
proof (induction ops arbitrary: prev s i mk)
  case Nil
  then show ?case by simp
next
  case (Cons a ops)
  show ?case
  proof (cases a)
    case (LITERAL c)
    with Cons.prems obtain xs where s: "s = c # xs"
      and m: "sre_match ops (Some c) xs (Suc i) mk = Some (n, mk')"
      by (auto split: list.splits if_splits)
    from Cons.IH[OF m] s show ?thesis by simp
  next
    case AT_BEGINNING_LINE
    with Cons.prems have "sre_match ops prev s i mk = Some (n, mk')"
      by (auto split: if_splits)
    from Cons.IH[OF this] show ?thesis .
  next
    case AT_END_LINE
    with Cons.prems have "sre_match ops prev s i mk = Some (n, mk')"
      by (auto split: list.splits if_splits)
    from Cons.IH[OF this] show ?thesis .
  next
    case (MARK k)
    with Cons.prems have "sre_match ops prev s i (mk(k := i)) = Some (n, mk')" by simp
    from Cons.IH[OF this] show ?thesis .
  next
    case (MAX_REPEAT lo cs)
    with Cons.prems have
      "try_down (\<lambda>k. sre_match ops (prev_after prev s k) (drop k s) (i + k) mk) lo
         (length (takeWhile (in_charset cs) s)) = Some (n, mk')" by simp
    from try_down_Some[OF this] obtain k where
      k: "k \<le> length (takeWhile (in_charset cs) s)"
      and m: "sre_match ops (prev_after prev s k) (drop k s) (i + k) mk = Some (n, mk')"
      by blast
    have "length (takeWhile (in_charset cs) s) \<le> length s" by (rule length_takeWhile_le)
    with k Cons.IH[OF m] show ?thesis by auto
  qed
qed

lemma in_charset_ANY [simp]: "in_charset ANY = (\<lambda>x. x \<noteq> NL)"
  by (rule ext) simp

lemma in_charset_NOT_LITERAL [simp]: "in_charset (NOT_LITERAL c) = (\<lambda>x. x \<noteq> c)"
  by (rule ext) simp

lemma in_charset_SPACE [simp]: "in_charset CATEGORY_SPACE = isspace"
  by (rule ext) simp

lemma mark_literal:
  "sre_match (MARK j # LITERAL c # ops) pv r i mk =
     (if r \<noteq> [] \<and> hd r = c then sre_match ops (Some c) (tl r) (Suc i) (mk(j := i)) else None)"
  by (cases r) auto

lemma mark_eol:
  "sre_match [MARK j, AT_END_LINE] pv r i mk =
     (if r = [] \<or> hd r = NL then Some (i, mk(j := i)) else None)"
  by (cases r) auto

lemma drop_takeWhile_len: "drop (length (takeWhile P s)) s = dropWhile P s"
  by (simp add: dropWhile_eq_drop)

lemma repeat_until_literal:
  "sre_match (MAX_REPEAT lo (NOT_LITERAL c) # MARK j # LITERAL c # ops) prev s i mk =
     (let t = takeWhile (\<lambda>x. x \<noteq> c) s; r = dropWhile (\<lambda>x. x \<noteq> c) s in
      if lo \<le> length t \<and> r \<noteq> []
      then sre_match ops (Some c) (tl r) (Suc (i + length t)) (mk(j := i + length t))
      else None)"
proof -
  let ?t = "takeWhile (\<lambda>x. x \<noteq> c) s"
  let ?r = "dropWhile (\<lambda>x. x \<noteq> c) s"
  let ?f = "\<lambda>k. sre_match (MARK j # LITERAL c # ops) (prev_after prev s k) (drop k s) (i + k) mk"
  have below: "?f k = None" if "k < length ?t" for k
  proof -
    from that have "k < length s" using length_takeWhile_le[of "\<lambda>x. x \<noteq> c" s] by simp
    then have d: "drop k s = s ! k # drop (Suc k) s" by (simp add: Cons_nth_drop_Suc)
    have "s ! k = ?t ! k" using that by (simp add: takeWhile_nth)
    moreover have "?t ! k \<in> set ?t" using that by simp
    ultimately have "s ! k \<noteq> c" by (metis (mono_tags, lifting) set_takeWhileD)
    with d show ?thesis by simp
  qed
  have hd: "?r \<noteq> [] \<Longrightarrow> hd ?r = c" using hd_dropWhile[of "\<lambda>x. x \<noteq> c" s] by simp
  have top: "?f (length ?t) =
    (if ?r \<noteq> [] then sre_match ops (Some c) (tl ?r) (Suc (i + length ?t)) (mk(j := i + length ?t))
     else None)"
    unfolding mark_literal drop_takeWhile_len using hd by simp
  have "sre_match (MAX_REPEAT lo (NOT_LITERAL c) # MARK j # LITERAL c # ops) prev s i mk =
      try_down ?f lo (length ?t)" by simp
  also have "\<dots> = (if lo \<le> length ?t then ?f (length ?t) else None)"
    by (rule try_down_only_top) (rule below)
  finally show ?thesis unfolding top by (simp add: Let_def)
qed

lemma any_plus_eol:
  "sre_match [MAX_REPEAT (Suc 0) ANY, MARK j, AT_END_LINE] prev s i mk =
     (let t = takeWhile (\<lambda>x. x \<noteq> NL) s in
      if t = [] then None else Some (i + length t, mk(j := i + length t)))"
proof -
  let ?t = "takeWhile (\<lambda>x. x \<noteq> NL) s"
  let ?r = "dropWhile (\<lambda>x. x \<noteq> NL) s"
  let ?f = "\<lambda>k. sre_match [MARK j, AT_END_LINE] (prev_after prev s k) (drop k s) (i + k) mk"
  have hd: "?r \<noteq> [] \<Longrightarrow> hd ?r = NL" using hd_dropWhile[of "\<lambda>x. x \<noteq> NL" s] by simp
  have top: "?f (length ?t) = Some (i + length ?t, mk(j := i + length ?t))"
    unfolding mark_eol drop_takeWhile_len using hd by auto
  have eq: "sre_match [MAX_REPEAT (Suc 0) ANY, MARK j, AT_END_LINE] prev s i mk = try_down ?f 1 (length ?t)"
    by simp
  show ?thesis
  proof (cases "?t = []")
    case True
    then show ?thesis unfolding eq by (simp add: Let_def)
  next
    case False
    then have "1 \<le> length ?t" by (cases ?t) auto
    from try_down_top[where f = ?f, OF this top] False show ?thesis
      unfolding eq by (simp add: Let_def)
  qed
qed

section \<open>The usage pattern\<close>

declare sre_match.simps(6) [simp del]


lemma until_split:
  "c \<notin> set T \<Longrightarrow> takeWhile (\<lambda>x. x \<noteq> c) (T @ c # l) = T"
  "c \<notin> set T \<Longrightarrow> dropWhile (\<lambda>x. x \<noteq> c) (T @ c # l) = c # l"
  by (induction T) auto

lemma until_decomp:
  assumes "dropWhile (\<lambda>x. x \<noteq> c) s \<noteq> []"
  shows "s = takeWhile (\<lambda>x. x \<noteq> c) s @ c # tl (dropWhile (\<lambda>x. x \<noteq> c) s)"
    and "c \<notin> set (takeWhile (\<lambda>x. x \<noteq> c) s)"
proof -
  have "hd (dropWhile (\<lambda>x. x \<noteq> c) s) = c"
    using hd_dropWhile[of "\<lambda>x. x \<noteq> c" s] assms by simp
  with assms have "dropWhile (\<lambda>x. x \<noteq> c) s = c # tl (dropWhile (\<lambda>x. x \<noteq> c) s)"
    by (cases "dropWhile (\<lambda>x. x \<noteq> c) s") auto
  then show "s = takeWhile (\<lambda>x. x \<noteq> c) s @ c # tl (dropWhile (\<lambda>x. x \<noteq> c) s)"
    by (metis takeWhile_dropWhile_id)
  show "c \<notin> set (takeWhile (\<lambda>x. x \<noteq> c) s)"
    by (auto dest: set_takeWhileD)
qed

lemma usage_sre:
  "sre_match usage_pattern prev s 0 mk =
    (case s of [] \<Rightarrow> None
     | c # s1 \<Rightarrow>
        if c \<noteq> LBRACK then None
        else if takeWhile (\<lambda>x. x \<noteq> RBRACK) s1 = [] \<or> dropWhile (\<lambda>x. x \<noteq> RBRACK) s1 = [] then None
        else (case tl (dropWhile (\<lambda>x. x \<noteq> RBRACK) s1) of [] \<Rightarrow> None
          | c2 # s2 \<Rightarrow>
             if c2 \<noteq> LBRACK then None
             else if takeWhile (\<lambda>x. x \<noteq> RBRACK) s2 = [] \<or> dropWhile (\<lambda>x. x \<noteq> RBRACK) s2 = [] then None
             else Some (length (takeWhile (\<lambda>x. x \<noteq> RBRACK) s1) + length (takeWhile (\<lambda>x. x \<noteq> RBRACK) s2) + 4,
                   mk(0 := 1, 1 := 1 + length (takeWhile (\<lambda>x. x \<noteq> RBRACK) s1),
                      2 := length (takeWhile (\<lambda>x. x \<noteq> RBRACK) s1) + 3,
                      3 := length (takeWhile (\<lambda>x. x \<noteq> RBRACK) s1) + length (takeWhile (\<lambda>x. x \<noteq> RBRACK) s2) + 3))))"
proof -
  have le: "Suc 0 \<le> length xs \<longleftrightarrow> xs \<noteq> []" for xs :: str by (cases xs) auto
  show ?thesis
    unfolding usage_pattern_def
    by (auto simp add: repeat_until_literal Let_def le numeral_eq_Suc split: list.split)
qed

lemma take_exact: "n = length a \<Longrightarrow> take n (a @ b) = a"
  by simp

lemma slice_exact: "b = length a \<Longrightarrow> e = length a + length m \<Longrightarrow> slice (a @ m @ c) b e = m"
  by (simp add: slice_def)

lemma usage_matchI:
  assumes "T \<noteq> []" "RBRACK \<notin> set T" "r \<noteq> []" "RBRACK \<notin> set r"
  shows "match_at usage_pattern prev (LBRACK # T @ RBRACK # LBRACK # r @ RBRACK # rest) =
     Some (length T + length r + 4,
       \<lparr>group0 = LBRACK # T @ RBRACK # LBRACK # r @ [RBRACK], group1 = T, group2 = r\<rparr>)"
proof -
  let ?s = "LBRACK # T @ RBRACK # LBRACK # r @ RBRACK # rest"
  let ?mk = "(\<lambda>_::nat. 0::nat)(0 := 1, 1 := 1 + length T, 2 := length T + 3, 3 := length T + length r + 3)"
  have tw1: "takeWhile (\<lambda>x. x \<noteq> RBRACK) (T @ RBRACK # LBRACK # r @ RBRACK # rest) = T"
    and dw1: "dropWhile (\<lambda>x. x \<noteq> RBRACK) (T @ RBRACK # LBRACK # r @ RBRACK # rest) = RBRACK # LBRACK # r @ RBRACK # rest"
    using assms(2) by (rule until_split)+
  have tw2: "takeWhile (\<lambda>x. x \<noteq> RBRACK) (r @ RBRACK # rest) = r"
    and dw2: "dropWhile (\<lambda>x. x \<noteq> RBRACK) (r @ RBRACK # rest) = RBRACK # rest"
    using assms(4) by (rule until_split)+
  have sre: "sre_match usage_pattern prev ?s 0 (\<lambda>_. 0) = Some (length T + length r + 4, ?mk)"
    unfolding usage_sre list.case tw1 dw1 list.sel tw2 dw2 using assms(1,3) by simp
  have g0: "take (length T + length r + 4) ?s = LBRACK # T @ RBRACK # LBRACK # r @ [RBRACK]"
    using take_exact[of "length T + length r + 4" "LBRACK # T @ RBRACK # LBRACK # r @ [RBRACK]" rest]
    by simp
  have g1: "slice ?s (?mk 0) (?mk 1) = T"
    using slice_exact[of 1 "[LBRACK]" "1 + length T" T "RBRACK # LBRACK # r @ RBRACK # rest"]
    by simp
  have g2: "slice ?s (?mk 2) (?mk 3) = r"
    using slice_exact[of "length T + 3" "LBRACK # T @ [RBRACK, LBRACK]" "length T + length r + 3" r "RBRACK # rest"]
    by simp
  show ?thesis unfolding match_at_def sre option.case prod.case g0 g1 g2 ..
qed

lemma usage_matchE:
  assumes "match_at usage_pattern prev s = Some (n, m)"
  obtains T r rest where "s = LBRACK # T @ RBRACK # LBRACK # r @ RBRACK # rest"
    "T \<noteq> []" "RBRACK \<notin> set T" "r \<noteq> []" "RBRACK \<notin> set r"
    "n = length T + length r + 4"
    "m = \<lparr>group0 = LBRACK # T @ RBRACK # LBRACK # r @ [RBRACK], group1 = T, group2 = r\<rparr>"
proof -
  from assms have ex: "sre_match usage_pattern prev s 0 (\<lambda>_. 0) \<noteq> None"
    by (auto simp: match_at_def split: option.splits)
  from ex obtain s1 where s: "s = LBRACK # s1"
    unfolding usage_sre by (cases s) (simp_all split: if_splits)
  let ?T = "takeWhile (\<lambda>x. x \<noteq> RBRACK) s1"
  let ?d = "dropWhile (\<lambda>x. x \<noteq> RBRACK) s1"
  from ex have T: "?T \<noteq> []" and d: "?d \<noteq> []"
    unfolding usage_sre s list.case by (simp_all split: if_splits)
  from ex T d obtain s2 where d2: "tl ?d = LBRACK # s2"
    unfolding usage_sre s list.case by (cases "tl ?d") (simp_all split: if_splits)
  let ?r = "takeWhile (\<lambda>x. x \<noteq> RBRACK) s2"
  let ?e = "dropWhile (\<lambda>x. x \<noteq> RBRACK) s2"
  from ex T d have r: "?r \<noteq> []" and e: "?e \<noteq> []"
    unfolding usage_sre s list.case d2 by (simp_all split: if_splits)
  have s1: "s1 = ?T @ RBRACK # LBRACK # s2" using until_decomp(1)[OF d] d2 by simp
  have s2: "s2 = ?r @ RBRACK # tl ?e" using until_decomp(1)[OF e] by simp
  have nT: "RBRACK \<notin> set ?T" and nr: "RBRACK \<notin> set ?r"
    using until_decomp(2)[OF d] until_decomp(2)[OF e] by auto
  have full: "s = LBRACK # ?T @ RBRACK # LBRACK # ?r @ RBRACK # tl ?e"
    using s s1 s2 by simp
  from usage_matchI[OF T nT r nr, of prev "tl ?e"] assms 
  have "n = length ?T + length ?r + 4"
    "m = \<lparr>group0 = LBRACK # ?T @ RBRACK # LBRACK # ?r @ [RBRACK], group1 = ?T, group2 = ?r\<rparr>"
    unfolding full[symmetric] by simp_all
  with full T nT r nr show ?thesis by (rule that[of ?T ?r "tl ?e"])
qed

section \<open>The tail of the reference pattern\<close>

lemma try_down_if:
  "try_down (\<lambda>k. if b k then None else Some (h k)) lo n =
     (case try_down (\<lambda>k. if b k then None else Some k) lo n of None \<Rightarrow> None
      | Some k \<Rightarrow> Some (h k))"
  by (induction n) auto

lemma reference_tail:
  "sre_match [MAX_REPEAT 0 CATEGORY_SPACE, MARK 2, MAX_REPEAT (Suc 0) ANY, MARK 3, AT_END_LINE] prev s i mk =
     (case target_offset s of None \<Rightarrow> None
      | Some k \<Rightarrow> Some (i + k + length (takeWhile (\<lambda>x. x \<noteq> NL) (drop k s)),
           mk(2 := i + k, 3 := i + k + length (takeWhile (\<lambda>x. x \<noteq> NL) (drop k s)))))"
proof -
  let ?t = "\<lambda>k. takeWhile (\<lambda>x. x \<noteq> NL) (drop k s)"
  let ?h = "\<lambda>k. (i + k + length (?t k), mk(2 := i + k, 3 := i + k + length (?t k)))"
  have "sre_match [MAX_REPEAT 0 CATEGORY_SPACE, MARK 2, MAX_REPEAT (Suc 0) ANY, MARK 3, AT_END_LINE] prev s i mk
      = try_down (\<lambda>k. if ?t k = [] then None else Some (?h k)) 0 (length (takeWhile isspace s))"
    by (subst sre_match.simps(6)) (simp add: any_plus_eol Let_def add.assoc)
  also have "\<dots> = (case try_down (\<lambda>k. if ?t k = [] then None else Some k) 0 (length (takeWhile isspace s)) of
       None \<Rightarrow> None | Some k \<Rightarrow> Some (?h k))"
    by (rule try_down_if)
  finally show ?thesis
    unfolding target_offset_def .
qed

lemma isspace_NL [simp]: "isspace NL"
  by (simp add: isspace_def NL_def)

lemma line_nonempty_iff: "takeWhile (\<lambda>x. x \<noteq> NL) s \<noteq> [] \<longleftrightarrow> s \<noteq> [] \<and> hd s \<noteq> NL"
  by (cases s) auto

lemma line_empty_iff: "takeWhile (\<lambda>x. x \<noteq> NL) s = [] \<longleftrightarrow> s = [] \<or> hd s = NL"
  by (cases s) auto

lemma target_offset_None_iff: "target_offset s = None \<longleftrightarrow> (\<forall>c\<in>set s. c = NL)"
proof
  assume none: "target_offset s = None"
  show "\<forall>c\<in>set s. c = NL"
  proof (rule ccontr)
    assume "\<not> (\<forall>c\<in>set s. c = NL)"
    then have ne: "dropWhile (\<lambda>x. x = NL) s \<noteq> []" by auto
    let ?j = "length (takeWhile (\<lambda>x. x = NL) s)"
    have d: "drop ?j s = dropWhile (\<lambda>x. x = NL) s" by (rule drop_takeWhile_len)
    have "hd (dropWhile (\<lambda>x. x = NL) s) \<noteq> NL" using hd_dropWhile[OF ne] .
    with ne d have t: "takeWhile (\<lambda>x. x \<noteq> NL) (drop ?j s) \<noteq> []"
      by (simp add: line_nonempty_iff)
    have "length (takeWhile (\<lambda>x. x = NL) s) \<le> length (takeWhile isspace s)"
    proof (induction s)
      case Nil
      then show ?case by simp
    next
      case (Cons a s)
      then show ?case by auto
    qed
    with none t show False
      unfolding target_offset_def try_down_None_iff by (auto split: if_splits)
  qed
next
  assume all: "\<forall>c\<in>set s. c = NL"
  have "takeWhile (\<lambda>x. x \<noteq> NL) (drop k s) = []" for k
  proof (cases "drop k s")
    case Nil
    then show ?thesis by simp
  next
    case (Cons a list)
    then have "a \<in> set s" by (metis in_set_dropD list.set_intros(1))
    with all Cons show ?thesis by simp
  qed
  then show "target_offset s = None"
    unfolding target_offset_def try_down_None_iff by simp
qed

lemma target_offset_Some:
  assumes "target_offset s = Some k"
  shows "k < length s" "\<forall>c\<in>set (take k s). isspace c" "s ! k \<noteq> NL"
    "isspace (s ! k) \<Longrightarrow> \<forall>c\<in>set (drop (Suc k) s). c = NL"
proof -
  let ?n = "length (takeWhile isspace s)"
  let ?f = "\<lambda>k. if takeWhile (\<lambda>x. x \<noteq> NL) (drop k s) = [] then None else Some k"
  from assms have "try_down ?f 0 ?n = Some k" by (simp add: target_offset_def)
  from try_down_Some[OF this] obtain k' where k': "k' \<le> ?n" "?f k' = Some k"
    and above: "\<forall>j. k' < j \<and> j \<le> ?n \<longrightarrow> ?f j = None" by blast
  from k'(2) have kk: "k' = k" and line: "takeWhile (\<lambda>x. x \<noteq> NL) (drop k s) \<noteq> []"
    by (auto split: if_splits)
  from line have dk: "drop k s \<noteq> []" "hd (drop k s) \<noteq> NL"
    by (simp_all add: line_nonempty_iff)
  from dk(1) show lt: "k < length s" by simp
  from dk(2) lt show "s ! k \<noteq> NL" by (simp add: hd_drop_conv_nth)
  have "take k s = take k (takeWhile isspace s)"
    using k'(1) kk by (metis append_eq_conv_conj takeWhile_dropWhile_id take_append min.absorb2 
        length_take take_all_iff order_refl append_take_drop_id take_take min.commute)
  then show "\<forall>c\<in>set (take k s). isspace c"
    by (metis in_set_takeD set_takeWhileD)
  show "\<forall>c\<in>set (drop (Suc k) s). c = NL" if sp: "isspace (s ! k)"
  proof -
    have kn: "k < ?n"
    proof (rule ccontr)
      assume "\<not> k < ?n"
      with k'(1) kk have "k = ?n" by simp
      then have "drop k s = dropWhile isspace s" by (simp add: drop_takeWhile_len)
      with dk(1) have "\<not> isspace (hd (drop k s))" using hd_dropWhile[of isspace s] by simp
      with sp lt show False by (simp add: hd_drop_conv_nth)
    qed
    have nl: "j < length s \<Longrightarrow> s ! j = NL" if "k < j" "j \<le> ?n" for j
    proof -
      assume jl: "j < length s"
      from above that kk have "takeWhile (\<lambda>x. x \<noteq> NL) (drop j s) = []"
        by (auto split: if_splits)
      then have "drop j s = [] \<or> hd (drop j s) = NL" by (simp only: line_empty_iff)
      with jl show "s ! j = NL" by (simp add: hd_drop_conv_nth)
    qed
    have atend: "?n = length s"
    proof (rule ccontr)
      assume "?n \<noteq> length s"
      then have nlt: "?n < length s" using length_takeWhile_le[of isspace s] by simp
      with nl[of ?n] kn have "s ! ?n = NL" by simp
      moreover have "\<not> isspace (s ! ?n)" using nth_length_takeWhile[OF nlt] .
      ultimately show False by simp
    qed
    show ?thesis
    proof
      fix c assume "c \<in> set (drop (Suc k) s)"
      then obtain i where i: "i < length (drop (Suc k) s)" "c = drop (Suc k) s ! i"
        by (metis in_set_conv_nth)
      then have "c = s ! (Suc k + i)" "Suc k + i < length s" by auto
      with nl[of "Suc k + i"] atend show "c = NL" by simp
    qed
  qed
qed

lemma target_offset_top:
  assumes "\<forall>c\<in>set w. isspace c" "t \<noteq> []" "\<not> isspace (hd t)"
  shows "target_offset (w @ t) = Some (length w)"
proof -
  have tw: "takeWhile isspace (w @ t) = w"
    using assms by (cases t) (auto simp: takeWhile_append2)
  have "hd t \<noteq> NL" using assms(3) by auto
  then have "takeWhile (\<lambda>x. x \<noteq> NL) (drop (length w) (w @ t)) \<noteq> []"
    using assms(2) by (simp add: line_nonempty_iff)
  then show ?thesis
    unfolding target_offset_def tw by (intro try_down_top) auto
qed

section \<open>The reference pattern\<close>

lemma reference_sre:
  "sre_match reference_pattern prev s 0 mk =
    (if \<not> bol prev then None
     else case s of [] \<Rightarrow> None
     | c # s1 \<Rightarrow>
        if c \<noteq> LBRACK then None
        else if takeWhile (\<lambda>x. x \<noteq> RBRACK) s1 = [] \<or> dropWhile (\<lambda>x. x \<noteq> RBRACK) s1 = [] then None
        else (case tl (dropWhile (\<lambda>x. x \<noteq> RBRACK) s1) of [] \<Rightarrow> None
          | c2 # s2 \<Rightarrow>
             if c2 \<noteq> COLON then None
             else (case target_offset s2 of None \<Rightarrow> None
               | Some k \<Rightarrow>
                  Some (length (takeWhile (\<lambda>x. x \<noteq> RBRACK) s1) + 3 + k + length (takeWhile (\<lambda>x. x \<noteq> NL) (drop k s2)),
                   mk(0 := 1, 1 := 1 + length (takeWhile (\<lambda>x. x \<noteq> RBRACK) s1),
                      2 := length (takeWhile (\<lambda>x. x \<noteq> RBRACK) s1) + 3 + k,
                      3 := length (takeWhile (\<lambda>x. x \<noteq> RBRACK) s1) + 3 + k + length (takeWhile (\<lambda>x. x \<noteq> NL) (drop k s2)))))))"
proof -
  have le: "Suc 0 \<le> length xs \<longleftrightarrow> xs \<noteq> []" for xs :: str by (cases xs) auto
  show ?thesis
    unfolding reference_pattern_def
    by (auto simp add: bol_def repeat_until_literal reference_tail Let_def le
        split: list.split option.split)
qed

lemma reference_match_exact:
  assumes "bol prev" "key \<noteq> []" "RBRACK \<notin> set key" "target_offset s2 = Some k"
  shows "match_at reference_pattern prev (LBRACK # key @ RBRACK # COLON # s2) =
     Some (length key + 3 + k + length (takeWhile (\<lambda>x. x \<noteq> NL) (drop k s2)),
       \<lparr>group0 = LBRACK # key @ RBRACK # COLON # take k s2 @ takeWhile (\<lambda>x. x \<noteq> NL) (drop k s2),
        group1 = key, group2 = takeWhile (\<lambda>x. x \<noteq> NL) (drop k s2)\<rparr>)"
proof -
  let ?s = "LBRACK # key @ RBRACK # COLON # s2"
  let ?t = "takeWhile (\<lambda>x. x \<noteq> NL) (drop k s2)"
  let ?r = "dropWhile (\<lambda>x. x \<noteq> NL) (drop k s2)"
  let ?N = "length key + 3 + k + length ?t"
  let ?mk = "(\<lambda>_::nat. 0::nat)(0 := 1, 1 := 1 + length key, 2 := length key + 3 + k, 3 := ?N)"
  have tw1: "takeWhile (\<lambda>x. x \<noteq> RBRACK) (key @ RBRACK # COLON # s2) = key"
    and dw1: "dropWhile (\<lambda>x. x \<noteq> RBRACK) (key @ RBRACK # COLON # s2) = RBRACK # COLON # s2"
    using assms(3) by (rule until_split)+
  have sre: "sre_match reference_pattern prev ?s 0 (\<lambda>_. 0) = Some (?N, ?mk)"
    unfolding reference_sre list.case tw1 dw1 list.sel using assms(1,2,4) by simp
  have k: "k < length s2" using target_offset_Some(1)[OF assms(4)] .
  have s2: "s2 = take k s2 @ ?t @ ?r" by simp
  have whole: "?s = (LBRACK # key @ RBRACK # COLON # take k s2 @ ?t) @ ?r" by simp
  have g0: "take ?N ?s = LBRACK # key @ RBRACK # COLON # take k s2 @ ?t"
    by (subst whole, rule take_exact) (use k in simp)
  have g1: "slice ?s (?mk 0) (?mk 1) = key"
    using slice_exact[of 1 "[LBRACK]" "1 + length key" key "RBRACK # COLON # s2"]
    by simp
  have lk: "length (take k s2) = k" using k by simp
  have s3: "?s = (LBRACK # key @ RBRACK # COLON # take k s2) @ ?t @ ?r" by simp
  have "slice ?s (length key + 3 + k) ?N = ?t"
    by (subst s3, rule slice_exact) (use k in \<open>simp_all add: min_def\<close>)
  then have g2: "slice ?s (?mk 2) (?mk 3) = ?t" by simp
  show ?thesis unfolding match_at_def sre option.case prod.case g0 g1 g2 ..
qed

section \<open>The table and the scan\<close>

lemma map_of_dict_aux:
  "map_of (foldl (\<lambda>d (k, v). AList.update k v d) d pairs) k =
     (case map_of (rev pairs) k of Some v \<Rightarrow> Some v | None \<Rightarrow> map_of d k)"
proof (induction pairs arbitrary: d)
  case Nil
  then show ?case by simp
next
  case (Cons a pairs)
  obtain x y where a: "a = (x, y)" by (cases a)
  show ?case
    unfolding a by (simp add: Cons.IH update_conv' map_add_def split: option.splits)
qed

lemma map_of_dict: "map_of (dict pairs) = map_of (rev pairs)"
  by (rule ext) (simp add: dict_def map_of_dict_aux split: option.splits)


lemma dict_Nil_iff: "dict pairs = [] \<longleftrightarrow> pairs = []"
proof
  assume "dict pairs = []"
  then have "map_of (rev pairs) = Map.empty" using map_of_dict[of pairs] by simp
  then show "pairs = []" by (cases "rev pairs") (auto simp: fun_eq_iff split: if_splits)
qed (simp add: dict_def)

lemma dict_in_pairs: "map_of (dict pairs) k = Some v \<Longrightarrow> (k, v) \<in> set pairs"
  unfolding map_of_dict by (auto dest: map_of_SomeD)

text \<open>general facts about the scan\<close>

lemma match_at_group0: "match_at p prev s = Some (n, m) \<Longrightarrow> group0 m = take n s"
  by (auto simp: match_at_def split: option.splits)

lemma match_at_le: "match_at p prev s = Some (n, m) \<Longrightarrow> n \<le> length s"
  by (auto simp: match_at_def split: option.splits dest: sre_match_bounds)

lemma prev_of_Nil [simp]: "prev_of prev [] = prev"
  by (simp add: prev_of_def)

lemma prev_of_snoc [simp]: "prev_of prev (a @ [c]) = Some c"
  by (simp add: prev_of_def)

lemma prev_of_Cons: "prev_of prev (c # a) = prev_of (Some c) a"
  by (simp add: prev_of_def)

lemma prev_of_append: "prev_of prev (a @ b) = prev_of (prev_of prev a) b"
  by (simp add: prev_of_def)

lemma prev_after_eq: "n \<le> length s \<Longrightarrow> prev_after prev s n = prev_of prev (take n s)"
  by (cases n) (auto simp: prev_after_def prev_of_def last_conv_nth min_def)

lemma scan_text: "concat (map seg_text (scan p prev s)) = s"
proof (induction p prev s rule: scan.induct)
  case (1 p prev)
  show ?case
  proof (cases "match_at p prev []")
    case None
    then show ?thesis by simp
  next
    case (Some a)
    obtain n m where a: "a = (n, m)" by (cases a)
    from match_at_group0[OF Some[unfolded a]] Some a show ?thesis by simp
  qed
next
  case (2 p prev c cs)
  show ?case
  proof (cases "match_at p prev (c # cs)")
    case None
    with 2 show ?thesis by simp
  next
    case (Some a)
    obtain n m where a: "a = (n, m)" by (cases a)
    show ?thesis
    proof (cases "n = 0")
      case True
      with 2 Some a match_at_group0[OF Some[unfolded a]] show ?thesis by simp
    next
      case False
      with 2(3)[OF Some[unfolded a] refl False] Some a match_at_group0[OF Some[unfolded a]]
      show ?thesis by (simp del: take_Suc_Cons drop_Suc_Cons)
    qed
  qed
qed

section \<open>Scans without match and scans that arrive at a position\<close>

lemma scan_None:
  "match_at p prev (c # cs) = None \<Longrightarrow> scan p prev (c # cs) = Gap c # scan p (Some c) cs"
  by simp

lemma scan_Some:
  assumes "match_at p prev s = Some (n, m)" "0 < n"
  shows "scan p prev s = Match m # scan p (prev_of prev (take n s)) (drop n s)"
proof -
  have le: "n \<le> length s" using match_at_le[OF assms(1)] .
  with assms(2) obtain c cs where s: "s = c # cs" by (cases s) auto
  show ?thesis
    using assms le unfolding s
    by (simp add: prev_after_eq del: take_Suc_Cons drop_Suc_Cons)
qed

lemma scan_Match_origin:
  "Match m \<in> set (scan p prev s) \<Longrightarrow>
     \<exists>a b n. s = a @ b \<and> match_at p (prev_of prev a) b = Some (n, m)"
proof (induction p prev s rule: scan.induct)
  case (1 p prev)
  then obtain n where "match_at p prev [] = Some (n, m)"
    by (cases "match_at p prev []") auto
  then show ?case by (intro exI[of _ "[]"]) simp
next
  case (2 p prev c cs)
  show ?case
  proof (cases "match_at p prev (c # cs)")
    case None
    with 2(4) have "Match m \<in> set (scan p (Some c) cs)" by simp
    from 2(1)[OF None this] obtain a b n where
      ab: "cs = a @ b" "match_at p (prev_of (Some c) a) b = Some (n, m)" by blast
    then show ?thesis
      by (intro exI[of _ "c # a"] exI[of _ b] exI[of _ n]) (simp add: prev_of_Cons)
  next
    case (Some x)
    obtain n' m' where x: "x = (n', m')" by (cases x)
    note S = Some[unfolded x]
    show ?thesis
    proof (cases "m' = m")
      case True
      with S show ?thesis by (intro exI[of _ "[]"] exI[of _ "c # cs"] exI[of _ n']) simp
    next
      case False
      show ?thesis
      proof (cases "n' = 0")
        case True
        with 2(4) S False have "Match m \<in> set (scan p (Some c) cs)" by simp
        from 2(2)[OF S refl True this] obtain a b n where
          ab: "cs = a @ b" "match_at p (prev_of (Some c) a) b = Some (n, m)" by blast
        then show ?thesis
          by (intro exI[of _ "c # a"] exI[of _ b] exI[of _ n]) (simp add: prev_of_Cons)
      next
        case n0: False
        have le: "n' \<le> length (c # cs)" using match_at_le[OF S] .
        from 2(4) S False n0
        have "Match m \<in> set (scan p (prev_after prev (c # cs) n') (drop n' (c # cs)))" by simp
        from 2(3)[OF S refl n0 this] obtain a b n where
          ab: "drop n' (c # cs) = a @ b"
            "match_at p (prev_of (prev_after prev (c # cs) n') a) b = Some (n, m)" by blast
        have "c # cs = take n' (c # cs) @ drop n' (c # cs)" by (simp only: append_take_drop_id)
        then have "c # cs = (take n' (c # cs) @ a) @ b"
          unfolding ab(1) by (simp only: append.assoc)
        moreover have "prev_of prev (take n' (c # cs) @ a) = prev_of (prev_after prev (c # cs) n') a"
          using le by (simp add: prev_of_append prev_after_eq del: take_Suc_Cons)
        ultimately show ?thesis using ab(2)
          by (intro exI[of _ "take n' (c # cs) @ a"] exI[of _ b] exI[of _ n]) simp
      qed
    qed
  qed
qed

lemma no_match_simps [simp]:
  "no_match []" "no_match (Gap c # segs) = no_match segs" "\<not> no_match (Match m # segs)"
  by (auto simp: no_match_def)

lemma groups_of_Nil_iff: "groups_of segs = [] \<longleftrightarrow> no_match segs"
  by (induction segs rule: groups_of.induct) auto

lemma no_match_scan_iff:
  "no_match (scan p prev s) \<longleftrightarrow> (\<forall>a b. s = a @ b \<longrightarrow> match_at p (prev_of prev a) b = None)"
proof
  assume H: "\<forall>a b. s = a @ b \<longrightarrow> match_at p (prev_of prev a) b = None"
  show "no_match (scan p prev s)"
    unfolding no_match_def
  proof (intro allI notI)
    fix m assume "Match m \<in> set (scan p prev s)"
    from scan_Match_origin[OF this] obtain a b n where
      "s = a @ b" "match_at p (prev_of prev a) b = Some (n, m)" by blast
    with H show False by simp
  qed
next
  assume "no_match (scan p prev s)"
  then show "\<forall>a b. s = a @ b \<longrightarrow> match_at p (prev_of prev a) b = None"
  proof (induction s arbitrary: prev)
    case Nil
    then show ?case by (auto split: option.splits)
  next
    case (Cons c cs)
    have here: "match_at p prev (c # cs) = None"
      using Cons.prems by (cases "match_at p prev (c # cs)") (auto split: if_splits)
    with Cons.prems have "no_match (scan p (Some c) cs)" by simp
    from Cons.IH[OF this] have rest: "\<forall>a b. cs = a @ b \<longrightarrow> match_at p (prev_of (Some c) a) b = None" .
    show ?case
    proof (intro allI impI)
      fix a b assume ab: "c # cs = a @ b"
      show "match_at p (prev_of prev a) b = None"
      proof (cases a)
        case Nil
        with ab here show ?thesis by simp
      next
        case (Cons x a')
        with ab have "x = c" "cs = a' @ b" by auto
        with rest Cons show ?thesis by (simp add: prev_of_Cons)
      qed
    qed
  qed
qed

lemma no_match_scan_eq: "no_match (scan p prev s) \<Longrightarrow> scan p prev s = map Gap s"
proof (induction s arbitrary: prev)
  case Nil
  then show ?case by (auto split: option.splits)
next
  case (Cons c cs)
  have here: "match_at p prev (c # cs) = None"
    using Cons.prems by (cases "match_at p prev (c # cs)") (auto split: if_splits)
  with Cons show ?case by simp
qed

lemma expand_append: "expand f (xs @ ys) = expand f xs @ expand f ys"
  by (induction f xs rule: expand.induct) auto

lemma expand_map_Gap [simp]: "expand f (map Gap s) = s"
  by (induction s) auto

lemma groups_of_append: "groups_of (xs @ ys) = groups_of xs @ groups_of ys"
  by (induction xs rule: groups_of.induct) auto

lemma groups_of_map_Gap [simp]: "groups_of (map Gap s) = []"
  by (induction s) auto

text \<open>the scan arrives at a position\<close>

lemma reaches_Nil [simp]: "scan_reaches p prev [] b"
  by (simp add: scan_reaches_def)

lemma reaches_gap:
  assumes "match_at p prev (c # a @ b) = None" "scan_reaches p (Some c) a b"
  shows "scan_reaches p prev (c # a) b"
proof -
  from assms(2) obtain segs where
    "scan p (Some c) (a @ b) = segs @ scan p (prev_of (Some c) a) b" "concat (map seg_text segs) = a"
    by (auto simp: scan_reaches_def)
  with assms(1) show ?thesis
    unfolding scan_reaches_def
    by (intro exI[of _ "Gap c # segs"]) (simp add: prev_of_Cons)
qed

lemma reaches_match:
  assumes "match_at p prev (M @ a @ b) = Some (length M, m)" "M \<noteq> []"
    "scan_reaches p (prev_of prev M) a b"
  shows "scan_reaches p prev (M @ a) b"
proof -
  from assms(3) obtain segs where segs:
    "scan p (prev_of prev M) (a @ b) = segs @ scan p (prev_of (prev_of prev M) a) b"
    "concat (map seg_text segs) = a"
    by (auto simp: scan_reaches_def)
  have "scan p prev (M @ a @ b) = Match m # scan p (prev_of prev M) (a @ b)"
    using scan_Some[OF assms(1)] assms(2) by simp
  moreover have "group0 m = M" using match_at_group0[OF assms(1)] by simp
  ultimately show ?thesis
    unfolding scan_reaches_def using segs
    by (intro exI[of _ "Match m # segs"]) (simp add: prev_of_append)
qed

lemma reaches_trans:
  assumes "scan_reaches p prev a (b @ c)" "scan_reaches p (prev_of prev a) b c"
  shows "scan_reaches p prev (a @ b) c"
proof -
  from assms(1) obtain s1 where s1:
    "scan p prev (a @ b @ c) = s1 @ scan p (prev_of prev a) (b @ c)" "concat (map seg_text s1) = a"
    by (auto simp: scan_reaches_def)
  from assms(2) obtain s2 where s2:
    "scan p (prev_of prev a) (b @ c) = s2 @ scan p (prev_of (prev_of prev a) b) c"
    "concat (map seg_text s2) = b"
    by (auto simp: scan_reaches_def)
  show ?thesis
    unfolding scan_reaches_def using s1 s2
    by (intro exI[of _ "s1 @ s2"]) (simp add: prev_of_append)
qed

lemma reaches_expand:
  assumes "scan_reaches p prev a b"
  obtains segs where "concat (map seg_text segs) = a"
    "expand f (scan p prev (a @ b)) = expand f segs @ expand f (scan p (prev_of prev a) b)"
    "scan p prev (a @ b) = segs @ scan p (prev_of prev a) b"
proof -
  from assms obtain segs where s: "scan p prev (a @ b) = segs @ scan p (prev_of prev a) b"
    "concat (map seg_text segs) = a" unfolding scan_reaches_def by blast
  show ?thesis by (rule that[OF s(2) _ s(1)]) (simp add: s(1) expand_append)
qed

section \<open>Where the reference pattern matches\<close>

lemma key_tail_decomp:
  "key_tail xs \<longleftrightarrow>
     (\<exists>k s2. xs = k @ RBRACK # COLON # s2 \<and> RBRACK \<notin> set k \<and> (\<exists>c\<in>set s2. c \<noteq> NL))"
proof (induction xs)
  case Nil
  then show ?case by simp
next
  case (Cons x xs)
  show ?case
  proof (cases "x = RBRACK")
    case True
    have "key_tail (x # xs) \<longleftrightarrow> (\<exists>s2. xs = COLON # s2 \<and> (\<exists>c\<in>set s2. c \<noteq> NL))"
      using True by (cases xs) auto
    also have "\<dots> \<longleftrightarrow> (\<exists>k s2. x # xs = k @ RBRACK # COLON # s2 \<and> RBRACK \<notin> set k \<and> (\<exists>c\<in>set s2. c \<noteq> NL))"
    proof
      assume "\<exists>s2. xs = COLON # s2 \<and> (\<exists>c\<in>set s2. c \<noteq> NL)"
      then obtain s2 where "xs = COLON # s2" "\<exists>c\<in>set s2. c \<noteq> NL" by blast
      with True show "\<exists>k s2. x # xs = k @ RBRACK # COLON # s2 \<and> RBRACK \<notin> set k \<and> (\<exists>c\<in>set s2. c \<noteq> NL)"
        by (intro exI[of _ "[]"] exI[of _ s2]) simp
    next
      assume "\<exists>k s2. x # xs = k @ RBRACK # COLON # s2 \<and> RBRACK \<notin> set k \<and> (\<exists>c\<in>set s2. c \<noteq> NL)"
      then obtain k s2 where k: "x # xs = k @ RBRACK # COLON # s2" "RBRACK \<notin> set k"
        "\<exists>c\<in>set s2. c \<noteq> NL" by blast
      from k(1,2) True have "k = []" by (cases k) auto
      with k show "\<exists>s2. xs = COLON # s2 \<and> (\<exists>c\<in>set s2. c \<noteq> NL)" by simp
    qed
    finally show ?thesis .
  next
    case False
    have "key_tail (x # xs) \<longleftrightarrow> key_tail xs" using False by simp
    also have "\<dots> \<longleftrightarrow> (\<exists>k s2. xs = k @ RBRACK # COLON # s2 \<and> RBRACK \<notin> set k \<and> (\<exists>c\<in>set s2. c \<noteq> NL))"
      by (rule Cons.IH)
    also have "\<dots> \<longleftrightarrow> (\<exists>k s2. x # xs = k @ RBRACK # COLON # s2 \<and> RBRACK \<notin> set k \<and> (\<exists>c\<in>set s2. c \<noteq> NL))"
    proof
      assume "\<exists>k s2. xs = k @ RBRACK # COLON # s2 \<and> RBRACK \<notin> set k \<and> (\<exists>c\<in>set s2. c \<noteq> NL)"
      then obtain k s2 where "xs = k @ RBRACK # COLON # s2" "RBRACK \<notin> set k" "\<exists>c\<in>set s2. c \<noteq> NL"
        by blast
      with False show "\<exists>k s2. x # xs = k @ RBRACK # COLON # s2 \<and> RBRACK \<notin> set k \<and> (\<exists>c\<in>set s2. c \<noteq> NL)"
        by (intro exI[of _ "x # k"] exI[of _ s2]) simp
    next
      assume "\<exists>k s2. x # xs = k @ RBRACK # COLON # s2 \<and> RBRACK \<notin> set k \<and> (\<exists>c\<in>set s2. c \<noteq> NL)"
      then obtain k s2 where k: "x # xs = k @ RBRACK # COLON # s2" "RBRACK \<notin> set k"
        "\<exists>c\<in>set s2. c \<noteq> NL" by blast
      from k(1) False obtain k' where "k = x # k'" by (cases k) auto
      with k show "\<exists>k s2. xs = k @ RBRACK # COLON # s2 \<and> RBRACK \<notin> set k \<and> (\<exists>c\<in>set s2. c \<noteq> NL)"
        by (intro exI[of _ k'] exI[of _ s2]) simp
    qed
    finally show ?thesis .
  qed
qed

lemma def_start_decomp:
  "def_start s \<longleftrightarrow>
     (\<exists>key s2. s = LBRACK # key @ RBRACK # COLON # s2 \<and> key \<noteq> [] \<and> RBRACK \<notin> set key \<and>
        (\<exists>c\<in>set s2. c \<noteq> NL))"
proof
  assume "def_start s"
  then obtain x xs where s: "s = LBRACK # x # xs" and x: "x \<noteq> RBRACK" and kt: "key_tail xs"
    by (cases s rule: def_start.cases) auto
  from kt obtain k s2 where k: "xs = k @ RBRACK # COLON # s2" "RBRACK \<notin> set k" "\<exists>c\<in>set s2. c \<noteq> NL"
    unfolding key_tail_decomp by blast
  with s x show "\<exists>key s2. s = LBRACK # key @ RBRACK # COLON # s2 \<and> key \<noteq> [] \<and> RBRACK \<notin> set key \<and>
        (\<exists>c\<in>set s2. c \<noteq> NL)"
    by (intro exI[of _ "x # k"] exI[of _ s2]) simp
next
  assume "\<exists>key s2. s = LBRACK # key @ RBRACK # COLON # s2 \<and> key \<noteq> [] \<and> RBRACK \<notin> set key \<and>
        (\<exists>c\<in>set s2. c \<noteq> NL)"
  then obtain key s2 where k: "s = LBRACK # key @ RBRACK # COLON # s2" "key \<noteq> []"
    "RBRACK \<notin> set key" "\<exists>c\<in>set s2. c \<noteq> NL" by blast
  from k(2) obtain x k' where key: "key = x # k'" by (cases key) auto
  have "key_tail (k' @ RBRACK # COLON # s2)"
    unfolding key_tail_decomp using k(3,4) key by (intro exI[of _ k'] exI[of _ s2]) simp
  with k(1,3) key show "def_start s" by simp
qed

lemma def_start_append: "def_start a \<Longrightarrow> def_start (a @ b)"
proof -
  assume "def_start a"
  then obtain key s2 where k: "a = LBRACK # key @ RBRACK # COLON # s2" "key \<noteq> []"
    "RBRACK \<notin> set key" "\<exists>c\<in>set s2. c \<noteq> NL" unfolding def_start_decomp by blast
  show ?thesis
    unfolding def_start_decomp using k
    by (intro exI[of _ key] exI[of _ "s2 @ b"]) auto
qed

lemma match_at_None_iff: "match_at p prev s = None \<longleftrightarrow> sre_match p prev s 0 (\<lambda>_. 0) = None"
  by (auto simp: match_at_def split: option.splits)

lemma reference_match_iff:
  "match_at reference_pattern prev s \<noteq> None \<longleftrightarrow> bol prev \<and> def_start s"
proof
  assume "bol prev \<and> def_start s"
  then obtain key s2 where b: "bol prev" and k: "s = LBRACK # key @ RBRACK # COLON # s2"
    "key \<noteq> []" "RBRACK \<notin> set key" "\<exists>c\<in>set s2. c \<noteq> NL"
    unfolding def_start_decomp by blast
  from k(4) have "target_offset s2 \<noteq> None" unfolding target_offset_None_iff by blast
  then obtain j where "target_offset s2 = Some j" by blast
  from reference_match_exact[OF b k(2,3) this] show "match_at reference_pattern prev s \<noteq> None"
    unfolding k(1) by simp
next
  assume "match_at reference_pattern prev s \<noteq> None"
  then have ex: "sre_match reference_pattern prev s 0 (\<lambda>_. 0) \<noteq> None"
    by (simp add: match_at_None_iff)
  have b: "bol prev" using ex unfolding reference_sre by (simp split: if_splits)
  from ex b obtain s1 where s: "s = LBRACK # s1"
    unfolding reference_sre by (cases s) (simp_all split: if_splits)
  let ?T = "takeWhile (\<lambda>x. x \<noteq> RBRACK) s1"
  let ?d = "dropWhile (\<lambda>x. x \<noteq> RBRACK) s1"
  from ex b have T: "?T \<noteq> []" and d: "?d \<noteq> []"
    unfolding reference_sre s list.case by (simp_all split: if_splits)
  from ex b T d obtain s2 where d2: "tl ?d = COLON # s2"
    unfolding reference_sre s list.case by (cases "tl ?d") (simp_all split: if_splits)
  from ex b T d have "target_offset s2 \<noteq> None"
    unfolding reference_sre s list.case d2 by (simp split: if_splits option.splits)
  then have tg: "\<exists>c\<in>set s2. c \<noteq> NL" unfolding target_offset_None_iff by blast
  have s1: "s1 = ?T @ RBRACK # COLON # s2" using until_decomp(1)[OF d] d2 by simp
  have nT: "RBRACK \<notin> set ?T" using until_decomp(2)[OF d] .
  have "def_start s"
    unfolding def_start_decomp using s s1 T nT tg
    by (intro exI[of _ ?T] exI[of _ s2]) simp
  with b show "bol prev \<and> def_start s" ..
qed

lemma reference_None_iff:
  "match_at reference_pattern prev s = None \<longleftrightarrow> \<not> (bol prev \<and> def_start s)"
  using reference_match_iff[of prev s] by blast

lemma def_start_hd: "def_start (c # cs) \<Longrightarrow> c = LBRACK"
  by (cases cs) simp_all

lemma reference_None:
  "\<not> bol prev \<Longrightarrow> match_at reference_pattern prev s = None"
  "match_at reference_pattern prev [] = None"
  "c \<noteq> LBRACK \<Longrightarrow> match_at reference_pattern prev (c # cs) = None"
  "match_at reference_pattern prev (c # RBRACK # cs) = None"
proof -
  show "\<not> bol prev \<Longrightarrow> match_at reference_pattern prev s = None"
    by (simp add: reference_None_iff)
  show "match_at reference_pattern prev [] = None"
    by (simp add: reference_None_iff)
  show "c \<noteq> LBRACK \<Longrightarrow> match_at reference_pattern prev (c # cs) = None"
    unfolding reference_None_iff using def_start_hd[of c cs] by blast
  show "match_at reference_pattern prev (c # RBRACK # cs) = None"
    by (simp add: reference_None_iff)
qed

lemma all_NL_line: "\<forall>c\<in>set xs. c = NL \<Longrightarrow> takeWhile (\<lambda>x. x \<noteq> NL) xs = []"
  by (cases xs) auto

lemma all_NL_dropWhile: "\<forall>c\<in>set xs. c = NL \<Longrightarrow> \<forall>c\<in>set (dropWhile P xs). c = NL"
  by (auto dest: set_dropWhileD)

lemma reference_matchE:
  assumes "match_at reference_pattern prev s = Some (n, m)"
  obtains key w t rest where "bol prev"
    "s = LBRACK # key @ RBRACK # COLON # w @ t @ rest"
    "key \<noteq> []" "RBRACK \<notin> set key" "\<forall>c\<in>set w. isspace c" "t \<noteq> []" "NL \<notin> set t"
    "rest = [] \<or> hd rest = NL"
    "n = length key + 3 + length w + length t"
    "m = \<lparr>group0 = LBRACK # key @ RBRACK # COLON # w @ t, group1 = key, group2 = t\<rparr>"
    "isspace (hd t) \<Longrightarrow> length t = 1 \<and> (\<forall>c\<in>set rest. c = NL)"
proof -
  from assms have "match_at reference_pattern prev s \<noteq> None" by simp
  then obtain key s2 where b: "bol prev" and k: "s = LBRACK # key @ RBRACK # COLON # s2"
    "key \<noteq> []" "RBRACK \<notin> set key" "\<exists>c\<in>set s2. c \<noteq> NL"
    unfolding reference_match_iff def_start_decomp by blast
  from k(4) have "target_offset s2 \<noteq> None" unfolding target_offset_None_iff by blast
  then obtain j where j: "target_offset s2 = Some j" by blast
  let ?w = "take j s2"
  let ?t = "takeWhile (\<lambda>x. x \<noteq> NL) (drop j s2)"
  let ?r = "dropWhile (\<lambda>x. x \<noteq> NL) (drop j s2)"
  note ts = target_offset_Some[OF j]
  have lw: "length ?w = j" using ts(1) by simp
  have dj: "drop j s2 = s2 ! j # drop (Suc j) s2" using ts(1) by (simp add: Cons_nth_drop_Suc)
  have t: "?t = s2 ! j # takeWhile (\<lambda>x. x \<noteq> NL) (drop (Suc j) s2)"
    unfolding dj using ts(3) by simp
  have r: "?r = dropWhile (\<lambda>x. x \<noteq> NL) (drop (Suc j) s2)"
    unfolding dj using ts(3) by simp
  have 1: "s = LBRACK # key @ RBRACK # COLON # ?w @ ?t @ ?r" unfolding k(1) by simp
  have 2: "?t \<noteq> []" unfolding t by simp
  have 3: "NL \<notin> set ?t" by (auto dest: set_takeWhileD)
  have 4: "?r = [] \<or> hd ?r = NL" using hd_dropWhile[of "\<lambda>x. x \<noteq> NL" "drop j s2"] by auto
  from reference_match_exact[OF b k(2,3) j] assms
  have 5: "n = length key + 3 + length ?w + length ?t"
    and 6: "m = \<lparr>group0 = LBRACK # key @ RBRACK # COLON # ?w @ ?t, group1 = key, group2 = ?t\<rparr>"
    unfolding k(1)[symmetric] lw by simp_all
  have 7: "length ?t = 1 \<and> (\<forall>c\<in>set ?r. c = NL)" if "isspace (hd ?t)"
  proof -
    from that have "isspace (s2 ! j)" unfolding t by simp
    from ts(4)[OF this] have all: "\<forall>c\<in>set (drop (Suc j) s2). c = NL" .
    have e: "takeWhile (\<lambda>x. x \<noteq> NL) (drop (Suc j) s2) = []"
      using all by (rule all_NL_line)
    have "\<forall>c\<in>set ?r. c = NL" unfolding r using all by (rule all_NL_dropWhile)
    moreover have "length ?t = 1" unfolding t e by simp
    ultimately show ?thesis by blast
  qed
  show ?thesis by (rule that[OF b 1 k(2,3) ts(2) 2 3 4 5 6 7])
qed

section \<open>The rewriting pass\<close>

lemma findall_Nil_iff:
  "re_findall reference_pattern content = [] \<longleftrightarrow> \<not> has_definition content"
  unfolding re_findall_def groups_of_Nil_iff no_match_scan_iff has_definition_def
    reference_None_iff by blast

lemma groups_of_mem:
  "(k, v) \<in> set (groups_of segs) \<longleftrightarrow> (\<exists>m. Match m \<in> set segs \<and> group1 m = k \<and> group2 m = v)"
  by (induction segs rule: groups_of.induct) auto

lemma findall_reference_origin:
  assumes "(k, v) \<in> set (re_findall reference_pattern content)"
  obtains a w rest where
    "content = a @ LBRACK # k @ RBRACK # COLON # w @ v @ rest"
    "bol (prev_of None a)" "k \<noteq> []" "RBRACK \<notin> set k" "\<forall>c\<in>set w. isspace c"
    "v \<noteq> []" "NL \<notin> set v" "rest = [] \<or> hd rest = NL"
    "isspace (hd v) \<Longrightarrow> length v = 1 \<and> (\<forall>c\<in>set rest. c = NL)"
proof -
  from assms obtain m where m: "Match m \<in> set (scan reference_pattern None content)"
    "group1 m = k" "group2 m = v"
    unfolding re_findall_def groups_of_mem by blast
  from scan_Match_origin[OF m(1)] obtain a b n where ab: "content = a @ b"
    "match_at reference_pattern (prev_of None a) b = Some (n, m)" by blast
  from ab(2) show ?thesis
  proof (rule reference_matchE)
    fix key w t rest
    assume h: "bol (prev_of None a)" "b = LBRACK # key @ RBRACK # COLON # w @ t @ rest"
      "key \<noteq> []" "RBRACK \<notin> set key" "\<forall>c\<in>set w. isspace c" "t \<noteq> []" "NL \<notin> set t"
      "rest = [] \<or> hd rest = NL"
      "m = \<lparr>group0 = LBRACK # key @ RBRACK # COLON # w @ t, group1 = key, group2 = t\<rparr>"
      "isspace (hd t) \<Longrightarrow> length t = 1 \<and> (\<forall>c\<in>set rest. c = NL)"
    from h(9) m(2,3) have kv: "key = k" "t = v" by simp_all
    show ?thesis
      using h(1-8,10) ab(1) unfolding kv by (intro that[of a w rest]) simp_all
  qed
qed

text \<open>the rewriting scan at a usage\<close>

lemma usage_None:
  "match_at usage_pattern prev [] = None"
  "c \<noteq> LBRACK \<Longrightarrow> match_at usage_pattern prev (c # cs) = None"
  "match_at usage_pattern prev (c # RBRACK # cs) = None"
  by (simp_all add: match_at_None_iff usage_sre)

lemma scan_usage_step:
  assumes "T \<noteq> []" "RBRACK \<notin> set T" "r \<noteq> []" "RBRACK \<notin> set r"
  shows "scan usage_pattern prev (usage_text T r @ rest) =
     Match \<lparr>group0 = usage_text T r, group1 = T, group2 = r\<rparr> # scan usage_pattern (Some RBRACK) rest"
proof -
  let ?m = "\<lparr>group0 = usage_text T r, group1 = T, group2 = r\<rparr>"
  have s: "usage_text T r @ rest = LBRACK # T @ RBRACK # LBRACK # r @ RBRACK # rest"
    by (simp add: usage_text_def)
  have len: "length (usage_text T r) = length T + length r + 4" by (simp add: usage_text_def)
  have m: "match_at usage_pattern prev (usage_text T r @ rest) = Some (length T + length r + 4, ?m)"
    unfolding s using usage_matchI[OF assms, of prev rest] by (simp add: usage_text_def)
  have tk: "take (length T + length r + 4) (usage_text T r @ rest) = usage_text T r"
    by (rule take_exact) (simp add: len)
  have dr: "drop (length T + length r + 4) (usage_text T r @ rest) = rest"
    using len by (metis append_eq_conv_conj)
  have pv: "prev_of prev (usage_text T r) = Some RBRACK" by (simp add: prev_of_def usage_text_def)
  from scan_Some[OF m] show ?thesis unfolding tk dr pv by simp
qed

lemma replace_link_Some:
  "map_of tbl r = Some U \<Longrightarrow> replace_link tbl \<lparr>group0 = g, group1 = T, group2 = r\<rparr> = inline_link T U"
  by (simp add: replace_link_def inline_link_def)

lemma replace_link_None:
  "map_of tbl r = None \<Longrightarrow> replace_link tbl \<lparr>group0 = g, group1 = T, group2 = r\<rparr> = g"
  by (simp add: replace_link_def)

lemma rewrite_at:
  assumes "scan_reaches usage_pattern None pre (usage_text T r @ post)"
    "T \<noteq> []" "RBRACK \<notin> set T" "r \<noteq> []" "RBRACK \<notin> set r"
  obtains segs where "concat (map seg_text segs) = pre"
    "re_sub usage_pattern f (pre @ usage_text T r @ post) =
       expand f segs @ f \<lparr>group0 = usage_text T r, group1 = T, group2 = r\<rparr> @
       expand f (scan usage_pattern (Some RBRACK) post)"
proof -
  from assms(1) obtain segs where segs: "concat (map seg_text segs) = pre"
    "scan usage_pattern None (pre @ usage_text T r @ post) =
       segs @ scan usage_pattern (prev_of None pre) (usage_text T r @ post)"
    by (rule reaches_expand)
  show ?thesis
    by (rule that[OF segs(1)])
      (simp add: re_sub_def segs(2) expand_append scan_usage_step[OF assms(2-5)])
qed

text \<open>no match of the two patterns is empty, so the scan never takes its branch for that\<close>

lemma match_nonempty:
  "match_at usage_pattern pv s = Some (n, m) \<Longrightarrow> 0 < n"
  "match_at reference_pattern pv s = Some (n, m) \<Longrightarrow> 0 < n"
  by (auto elim!: usage_matchE reference_matchE)

text \<open>rules that evaluate the program on a given document\<close>

lemmas eval_simps = process_file_def output_text_def re_findall_def re_sub_def match_at_def
  usage_sre reference_sre target_offset_def slice_def dict_def replace_link_def strip_def
  isspace_def str_of_def NL_def LBRACK_def RBRACK_def COLON_def LPAREN_def RPAREN_def Let_def
  bol_def prev_after_def AList.update.simps usage_text_def inline_link_def prev_of_def

section \<open>Claims C2, C6 and C8\<close>

lemma process_file_no_definition:
  "\<not> has_definition content \<Longrightarrow> process_file content = No_reference_links"
  by (simp add: process_file_def findall_Nil_iff[symmetric] dict_def)

lemma process_file_definition:
  "has_definition content \<Longrightarrow>
     process_file content =
       Written (strip (re_sub reference_pattern (\<lambda>m. [])
         (re_sub usage_pattern (replace_link (dict (re_findall reference_pattern content))) content)))"
  using findall_Nil_iff[of content] by (simp add: process_file_def dict_Nil_iff Let_def)

text \<open>the lines of a document\<close>

lemma split_lines_not_Nil: "split_lines s \<noteq> []"
  by (cases s) (simp_all split: list.splits)

lemma split_lines_hd:
  "\<exists>b. s = hd (split_lines s) @ b \<and> (b = [] \<or> hd b = NL)"
proof (induction s)
  case Nil
  then show ?case by simp
next
  case (Cons c cs)
  show ?case
  proof (cases "c = NL")
    case True
    then show ?thesis by simp
  next
    case False
    from Cons obtain b where b: "cs = hd (split_lines cs) @ b" "b = [] \<or> hd b = NL" by blast
    have "hd (split_lines (c # cs)) = c # hd (split_lines cs)"
      using False split_lines_not_Nil[of cs] by (cases "split_lines cs") simp_all
    with b show ?thesis by (intro exI[of _ b]) simp
  qed
qed

lemma split_lines_tl:
  "l \<in> set (tl (split_lines s)) \<Longrightarrow> \<exists>a b. s = a @ NL # l @ b"
proof (induction s)
  case Nil
  then show ?case by simp
next
  case (Cons c cs)
  show ?case
  proof (cases "c = NL")
    case True
    with Cons.prems have "l \<in> set (split_lines cs)" by simp
    then have "l = hd (split_lines cs) \<or> l \<in> set (tl (split_lines cs))"
      using split_lines_not_Nil[of cs] by (cases "split_lines cs") auto
    then show ?thesis
    proof
      assume "l = hd (split_lines cs)"
      with split_lines_hd[of cs] obtain b where "cs = l @ b" by blast
      with True show ?thesis by (intro exI[of _ "[]"] exI[of _ b]) simp
    next
      assume "l \<in> set (tl (split_lines cs))"
      from Cons.IH[OF this] obtain a b where "cs = a @ NL # l @ b" by blast
      then show ?thesis by (intro exI[of _ "c # a"] exI[of _ b]) simp
    qed
  next
    case False
    then have "tl (split_lines (c # cs)) = tl (split_lines cs)"
      by (cases "split_lines cs") simp_all
    with Cons.prems have "l \<in> set (tl (split_lines cs))" by simp
    from Cons.IH[OF this] obtain a b where "cs = a @ NL # l @ b" by blast
    then show ?thesis by (intro exI[of _ "c # a"] exI[of _ b]) simp
  qed
qed

lemma definition_line_has_definition:
  assumes "has_definition_line content"
  shows "has_definition content"
proof -
  from assms obtain l where l: "l \<in> set (split_lines content)" "definition_line l"
    unfolding has_definition_line_def by blast
  from l(2) have d: "def_start l" unfolding definition_line_def reference_match_iff by simp
  from l(1) have "l = hd (split_lines content) \<or> l \<in> set (tl (split_lines content))"
    using split_lines_not_Nil[of content] by (cases "split_lines content") auto
  then show ?thesis
  proof
    assume "l = hd (split_lines content)"
    with split_lines_hd[of content] obtain b where "content = l @ b" by blast
    then have "content = [] @ (l @ b)" by simp
    moreover have "bol (prev_of None [])" by (simp add: bol_def)
    moreover have "def_start (l @ b)" using d by (rule def_start_append)
    ultimately show ?thesis unfolding has_definition_def by blast
  next
    assume "l \<in> set (tl (split_lines content))"
    then obtain a b where "content = a @ NL # l @ b" by (blast dest: split_lines_tl)
    then have "content = (a @ [NL]) @ (l @ b)" by simp
    moreover have "bol (prev_of None (a @ [NL]))" by (simp add: bol_def)
    moreover have "def_start (l @ b)" using d by (rule def_start_append)
    ultimately show ?thesis unfolding has_definition_def by blast
  qed
qed

text \<open>
  Claim C2, as amended.  The test of \<open>process_file\<close> is on the matches of the reference
  pattern, not on lines.  The pattern has a match exactly when some line start is followed
  by \<open>[\<close>, a non-empty key without \<open>]\<close>, \<open>]:\<close> and a remainder that is not only line feeds;
  the key and the whitespace after the colon may run over line feeds, so a document with a
  definition line has such a match, and a document without definition line can have one.
  A document without any match makes \<open>process_file\<close> print its message and return without
  writing: the output file keeps the input as it is, leading and trailing whitespace
  included.  For every other document \<open>process_file\<close> writes.
\<close>

theorem C2_no_definition_unchanged:
  "(has_definition content \<longleftrightarrow> re_findall reference_pattern content \<noteq> []) \<and>
   (has_definition_line content \<longrightarrow> has_definition content) \<and>
   (\<not> has_definition content \<longrightarrow>
      process_file content = No_reference_links \<and> output_text content = content) \<and>
   (has_definition content \<longrightarrow> (\<exists>u. process_file content = Written u))"
proof (intro conjI impI)
  show "has_definition content \<longleftrightarrow> re_findall reference_pattern content \<noteq> []"
    using findall_Nil_iff[of content] by blast
  show "has_definition content" if "has_definition_line content"
    using that by (rule definition_line_has_definition)
  show "process_file content = No_reference_links" if "\<not> has_definition content"
    using that by (rule process_file_no_definition)
  show "output_text content = content" if "\<not> has_definition content"
    using process_file_no_definition[OF that] by (simp add: output_text_def)
  show "\<exists>u. process_file content = Written u" if "has_definition content"
    using process_file_definition[OF that] by blast
qed

text \<open>
  Claim C2 as stated fails twice.  The document \<open>" a"\<close> has no definition, and the output
  is not the trimmed input.  The document of the second part has no definition line: the
  target of \<open>[a]:\<close> stands two lines below; the pattern matches all the same and
  \<open>process_file\<close> writes.
\<close>

theorem C2_counterexample:
  "\<not> has_definition_line (str_of '' a'') \<and>
   output_text (str_of '' a'') \<noteq> strip (str_of '' a'') \<and>
   \<not> has_definition_line (str_of ''[a]:\<newline>\<newline>foo\<newline>[T][a]'') \<and>
   process_file (str_of ''[a]:\<newline>\<newline>foo\<newline>[T][a]'') = Written (str_of ''[T](foo)'')"
  by (simp add: has_definition_line_def definition_line_def eval_simps)

theorem C2_witness:
  "\<not> has_definition (str_of ''see [x][y] '') \<and>
   \<not> has_definition_line (str_of ''see [x][y] '') \<and>
   re_findall reference_pattern (str_of ''see [x][y] '') = [] \<and>
   process_file (str_of ''see [x][y] '') = No_reference_links \<and>
   output_text (str_of ''see [x][y] '') = str_of ''see [x][y] '' \<and>
   has_definition_line (str_of ''[T][a]\<newline>[a]: u'') \<and>
   has_definition (str_of ''[T][a]\<newline>[a]: u'') \<and>
   process_file (str_of ''[T][a]\<newline>[a]: u'') = Written (str_of ''[T](u)'')"
proof -
  have 1: "re_findall reference_pattern (str_of ''see [x][y] '') = []"
    by (simp add: eval_simps)
  have 2: "has_definition_line (str_of ''[T][a]\<newline>[a]: u'')"
    by (simp add: has_definition_line_def definition_line_def eval_simps)
  have 3: "process_file (str_of ''[T][a]\<newline>[a]: u'') = Written (str_of ''[T](u)'')"
    by (simp add: eval_simps)
  from C2_no_definition_unchanged[of "str_of ''see [x][y] ''"] 1
  have a: "\<not> has_definition (str_of ''see [x][y] '')"
    "\<not> has_definition_line (str_of ''see [x][y] '')"
    "process_file (str_of ''see [x][y] '') = No_reference_links"
    "output_text (str_of ''see [x][y] '') = str_of ''see [x][y] ''"
    by blast+
  from C2_no_definition_unchanged[of "str_of ''[T][a]\<newline>[a]: u''"] 2
  have b: "has_definition (str_of ''[T][a]\<newline>[a]: u'')" by blast
  from a b 1 2 3 show ?thesis by blast
qed









section \<open>The stripping pass leaves no definition\<close>

lemma NL_not_LBRACK [simp]: "NL \<noteq> LBRACK" "LBRACK \<noteq> NL"
  by (simp_all add: NL_def LBRACK_def)

lemma COLON_not_NL [simp]: "COLON \<noteq> NL" "NL \<noteq> COLON"
  by (simp_all add: NL_def COLON_def)

lemma LBRACK_not_RBRACK [simp]: "LBRACK \<noteq> RBRACK" "RBRACK \<noteq> LBRACK"
  by (simp_all add: RBRACK_def LBRACK_def)

lemma re_sub_strip_defs: "re_sub reference_pattern (\<lambda>m. []) x = strip_defs None x"
  by (simp add: re_sub_def strip_defs_def)

lemma strip_defs_Nil [simp]: "strip_defs pv [] = []"
  by (simp add: strip_defs_def reference_None)

lemma strip_defs_None:
  "match_at reference_pattern pv (c # cs) = None \<Longrightarrow>
     strip_defs pv (c # cs) = c # strip_defs (Some c) cs"
  by (simp add: strip_defs_def)

lemma scan_reference_NL:
  "scan reference_pattern pv (NL # s) = Gap NL # scan reference_pattern (Some NL) s"
  by (simp add: reference_None)

lemma strip_defs_NL [simp]: "strip_defs pv (NL # s) = NL # strip_defs (Some NL) s"
  by (simp add: strip_defs_def scan_reference_NL del: scan.simps)

text \<open>the scan at a reference definition\<close>

lemma scan_reference_match:
  assumes "match_at reference_pattern pv s = Some (n, m)"
  obtains key w t rest where "bol pv"
    "s = LBRACK # key @ RBRACK # COLON # w @ t @ rest"
    "key \<noteq> []" "RBRACK \<notin> set key" "\<forall>c\<in>set w. isspace c" "t \<noteq> []" "NL \<notin> set t"
    "rest = [] \<or> hd rest = NL"
    "m = \<lparr>group0 = LBRACK # key @ RBRACK # COLON # w @ t, group1 = key, group2 = t\<rparr>"
    "scan reference_pattern pv s = Match m # scan reference_pattern (Some (last t)) rest"
    "isspace (hd t) \<Longrightarrow> length t = 1 \<and> (\<forall>c\<in>set rest. c = NL)"
proof -
  from assms show ?thesis
  proof (rule reference_matchE)
    fix key w t rest
    assume h: "bol pv" "s = LBRACK # key @ RBRACK # COLON # w @ t @ rest"
      "key \<noteq> []" "RBRACK \<notin> set key" "\<forall>c\<in>set w. isspace c" "t \<noteq> []" "NL \<notin> set t"
      "rest = [] \<or> hd rest = NL" "n = length key + 3 + length w + length t"
      "m = \<lparr>group0 = LBRACK # key @ RBRACK # COLON # w @ t, group1 = key, group2 = t\<rparr>"
      "isspace (hd t) \<Longrightarrow> length t = 1 \<and> (\<forall>c\<in>set rest. c = NL)"
    let ?M = "LBRACK # key @ RBRACK # COLON # w @ t"
    have s: "s = ?M @ rest" using h(2) by simp
    have n: "n = length ?M" using h(9) by simp
    have tk: "take n s = ?M" unfolding s n by (rule take_exact) simp
    have dr: "drop n s = rest" unfolding s n by (metis append_eq_conv_conj)
    have pv: "prev_of pv ?M = Some (last t)" using h(6) by (simp add: prev_of_def)
    have "0 < n" using n by simp
    from scan_Some[OF assms this]
    have sc: "scan reference_pattern pv s = Match m # scan reference_pattern (Some (last t)) rest"
      unfolding tk dr pv .
    show ?thesis by (rule that[OF h(1-8) h(10) sc h(11)])
  qed
qed

lemma strip_defs_match:
  assumes "match_at reference_pattern pv s = Some (n, m)"
  obtains "strip_defs pv s = []"
  | rest where "length rest < length s" "strip_defs pv s = NL # strip_defs (Some NL) rest"
proof -
  from assms show ?thesis
  proof (rule scan_reference_match)
    fix key w t rest
    assume h: "s = LBRACK # key @ RBRACK # COLON # w @ t @ rest" "rest = [] \<or> hd rest = NL"
      "scan reference_pattern pv s = Match m # scan reference_pattern (Some (last t)) rest"
    have sd: "strip_defs pv s = strip_defs (Some (last t)) rest"
      by (simp add: strip_defs_def h(3))
    show ?thesis
    proof (cases rest)
      case Nil
      with sd show ?thesis by (intro that(1)) simp
    next
      case (Cons x rest')
      with h(2) have x: "x = NL" by simp
      have "length rest' < length s" unfolding h(1) Cons by simp
      moreover have "strip_defs pv s = NL # strip_defs (Some NL) rest'"
        unfolding sd Cons x by simp
      ultimately show ?thesis by (rule that(2))
    qed
  qed
qed

lemma set_expand_del: "set (expand (\<lambda>m. []) segs) \<subseteq> set (concat (map seg_text segs))"
  by (induction segs rule: groups_of.induct) auto

lemma set_strip_defs: "set (strip_defs pv s) \<subseteq> set s"
  using set_expand_del[of "scan reference_pattern pv s"] by (simp add: strip_defs_def scan_text)

lemma strip_defs_hd:
  assumes "strip_defs pv s = y # r" "y \<noteq> NL"
  obtains s' where "s = y # s'" "r = strip_defs (Some y) s'"
    "match_at reference_pattern pv s = None"
proof (cases s)
  case Nil
  with assms show ?thesis by simp
next
  case (Cons c cs)
  show ?thesis
  proof (cases "match_at reference_pattern pv s")
    case None
    with assms Cons show ?thesis by (intro that[of cs]) (auto simp: strip_defs_None)
  next
    case (Some a)
    obtain n m where "a = (n, m)" by (cases a)
    with Some have "match_at reference_pattern pv s = Some (n, m)" by simp
    then show ?thesis
    proof (rule strip_defs_match)
      assume "strip_defs pv s = []"
      with assms show ?thesis by simp
    next
      fix rest assume "strip_defs pv s = NL # strip_defs (Some NL) rest"
      with assms show ?thesis by simp
    qed
  qed
qed

lemma key_tail_match:
  assumes "match_at reference_pattern pv s = Some (n, m)"
  shows "key_tail s" "def_start (LBRACK # s)"
proof -
  from assms obtain key w t rest where h: "s = LBRACK # key @ RBRACK # COLON # w @ t @ rest"
    "RBRACK \<notin> set key" "t \<noteq> []" "NL \<notin> set t"
    by (rule reference_matchE)
  from h(3,4) have nn: "\<exists>c\<in>set (w @ t @ rest). c \<noteq> NL" by (cases t) auto
  show "key_tail s"
    unfolding key_tail_decomp h(1) using h(2) nn
    by (intro exI[of _ "LBRACK # key"] exI[of _ "w @ t @ rest"]) simp
  show "def_start (LBRACK # s)"
    unfolding def_start_decomp h(1) using h(2) nn
    by (intro exI[of _ "LBRACK # key"] exI[of _ "w @ t @ rest"]) simp
qed

lemma key_tail_strip_defs: "key_tail (strip_defs pv s) \<Longrightarrow> key_tail s"
proof (induction s arbitrary: pv)
  case Nil
  then show ?case by simp
next
  case (Cons x xs)
  show ?case
  proof (cases "match_at reference_pattern pv (x # xs)")
    case None
    then have sd: "strip_defs pv (x # xs) = x # strip_defs (Some x) xs" by (rule strip_defs_None)
    show ?thesis
    proof (cases "x = RBRACK")
      case True
      from Cons.prems obtain r where g: "strip_defs (Some x) xs = COLON # r" "\<exists>c\<in>set r. c \<noteq> NL"
        unfolding sd using True by (cases "strip_defs (Some x) xs") auto
      from g(1) obtain s' where s': "xs = COLON # s'" "r = strip_defs (Some COLON) s'"
        by (rule strip_defs_hd) simp_all
      from g(2) s'(2) set_strip_defs[of "Some COLON" s'] have "\<exists>c\<in>set s'. c \<noteq> NL" by blast
      with True s'(1) show ?thesis by simp
    next
      case False
      with Cons.prems have "key_tail (strip_defs (Some x) xs)" unfolding sd by simp
      from Cons.IH[OF this] False show ?thesis by simp
    qed
  next
    case (Some a)
    obtain n m where "a = (n, m)" by (cases a)
    with Some show ?thesis by (intro key_tail_match(1)[of pv _ n m]) simp
  qed
qed

lemma def_start_strip_defs: "def_start (c # strip_defs pv cs) \<Longrightarrow> def_start (c # cs)"
proof -
  assume d: "def_start (c # strip_defs pv cs)"
  then obtain x X where g: "strip_defs pv cs = x # X" and c: "c = LBRACK" and x: "x \<noteq> RBRACK"
    and kt: "key_tail X"
    by (cases "strip_defs pv cs") auto
  show ?thesis
  proof (cases "match_at reference_pattern pv cs")
    case None
    show ?thesis
    proof (cases cs)
      case Nil
      with g show ?thesis by simp
    next
      case (Cons y ys)
      with None g have "x = y" "X = strip_defs (Some y) ys" by (auto simp: strip_defs_None)
      with kt have "key_tail ys" by (auto dest: key_tail_strip_defs)
      with c x \<open>x = y\<close> Cons show ?thesis by simp
    qed
  next
    case (Some a)
    obtain n m where "a = (n, m)" by (cases a)
    with Some c show ?thesis by (auto intro: key_tail_match(2)[of pv _ n m])
  qed
qed

lemma no_definition_after_strip_defs:
  "(bol pv' \<longrightarrow> bol pv) \<Longrightarrow> no_match (scan reference_pattern pv' (strip_defs pv s))"
proof (induction "length s" arbitrary: s pv pv' rule: less_induct)
  case less
  show ?case
  proof (cases s)
    case Nil
    then show ?thesis by (simp add: reference_None)
  next
    case (Cons c cs)
    show ?thesis
    proof (cases "match_at reference_pattern pv s")
      case None
      then have sd: "strip_defs pv s = c # strip_defs (Some c) cs"
        unfolding Cons by (rule strip_defs_None)
      have nd: "\<not> (bol pv' \<and> def_start (c # strip_defs (Some c) cs))"
      proof
        assume a: "bol pv' \<and> def_start (c # strip_defs (Some c) cs)"
        with less.prems have "bol pv" by simp
        moreover from a have "def_start (c # cs)" by (auto dest: def_start_strip_defs)
        ultimately show False using None unfolding Cons reference_None_iff by simp
      qed
      have "match_at reference_pattern pv' (c # strip_defs (Some c) cs) = None"
        unfolding reference_None_iff by (rule nd)
      then have "scan reference_pattern pv' (strip_defs pv s) =
          Gap c # scan reference_pattern (Some c) (strip_defs (Some c) cs)"
        unfolding sd by (rule scan_None)
      moreover have "no_match (scan reference_pattern (Some c) (strip_defs (Some c) cs))"
        by (rule less.hyps) (simp_all add: Cons)
      ultimately show ?thesis by simp
    next
      case (Some a)
      obtain n m where "a = (n, m)" by (cases a)
      with Some have "match_at reference_pattern pv s = Some (n, m)" by simp
      then show ?thesis
      proof (rule strip_defs_match)
        assume "strip_defs pv s = []"
        then show ?thesis by (simp add: reference_None)
      next
        fix rest
        assume r: "length rest < length s" "strip_defs pv s = NL # strip_defs (Some NL) rest"
        have "no_match (scan reference_pattern (Some NL) (strip_defs (Some NL) rest))"
          by (rule less.hyps[OF r(1)]) simp
        then show ?thesis unfolding r(2) scan_reference_NL by simp
      qed
    qed
  qed
qed

lemma findall_after_strip_defs:
  "re_findall reference_pattern (re_sub reference_pattern (\<lambda>m. []) x) = []"
  unfolding re_findall_def groups_of_Nil_iff re_sub_strip_defs
  by (rule no_definition_after_strip_defs) simp

section \<open>The trim, claims C3 and C5\<close>

lemma strip_decomp:
  "y = takeWhile isspace y @ strip y @ rev (takeWhile isspace (rev (dropWhile isspace y)))"
proof -
  let ?z = "dropWhile isspace y"
  have "rev ?z = takeWhile isspace (rev ?z) @ dropWhile isspace (rev ?z)" by simp
  then have "rev (rev ?z) = rev (takeWhile isspace (rev ?z) @ dropWhile isspace (rev ?z))"
    by (rule arg_cong)
  then have "?z = strip y @ rev (takeWhile isspace (rev ?z))"
    by (simp only: rev_rev_ident rev_append strip_def)
  moreover have "y = takeWhile isspace y @ ?z" by simp
  ultimately show ?thesis by metis
qed

lemma no_definition_after_trim:
  assumes "no_match (scan reference_pattern None y)"
    and "strip y = [] \<or> hd (strip y) \<noteq> LBRACK \<or> bol (prev_of None (takeWhile isspace y))"
  shows "no_match (scan reference_pattern None (strip y))"
  unfolding no_match_scan_iff
proof (intro allI impI)
  fix a b assume ab: "strip y = a @ b"
  let ?w1 = "takeWhile isspace y"
  let ?w2 = "rev (takeWhile isspace (rev (dropWhile isspace y)))"
  have "y = (?w1 @ a) @ (b @ ?w2)" using strip_decomp[of y] ab by simp
  with assms(1) have "match_at reference_pattern (prev_of None (?w1 @ a)) (b @ ?w2) = None"
    unfolding no_match_scan_iff by blast
  then have n: "\<not> (bol (prev_of None (?w1 @ a)) \<and> def_start (b @ ?w2))"
    unfolding reference_None_iff .
  have "\<not> (bol (prev_of None a) \<and> def_start b)"
  proof
    assume h: "bol (prev_of None a) \<and> def_start b"
    then have d: "def_start (b @ ?w2)" by (auto intro: def_start_append)
    have "bol (prev_of None (?w1 @ a))"
    proof (cases "a = []")
      case True
      with ab h have "strip y \<noteq> []" "hd (strip y) = LBRACK"
        by (cases b; auto dest: def_start_hd)+
      with assms(2) True show ?thesis by simp
    next
      case False
      then have "prev_of None (?w1 @ a) = prev_of None a" by (simp add: prev_of_def)
      with h show ?thesis by simp
    qed
    with d n show False by simp
  qed
  then show "match_at reference_pattern (prev_of None a) b = None"
    unfolding reference_None_iff .
qed

lemma findall_no_match:
  "re_findall p s = [] \<longleftrightarrow> no_match (scan p None s)"
  by (simp add: re_findall_def groups_of_Nil_iff)

lemma process_file_cases:
  obtains "process_file content = No_reference_links" "re_findall reference_pattern content = []"
  | y where "process_file content = Written (strip y)" "re_findall reference_pattern y = []"
      "y = re_sub reference_pattern (\<lambda>m. [])
         (re_sub usage_pattern (replace_link (dict (re_findall reference_pattern content))) content)"
      "re_findall reference_pattern content \<noteq> []"
proof (cases "has_definition content")
  case False
  then show ?thesis
    by (intro that(1)) (simp_all add: process_file_no_definition findall_Nil_iff)
next
  case True
  show ?thesis
    by (rule that(2)[OF process_file_definition[OF True] findall_after_strip_defs refl])
       (simp add: findall_Nil_iff True)
qed

text \<open>
  Claim C3, as amended.  Either nothing is written and the output, the input itself, has
  no reference definition; or the output is the trimmed text \<open>y\<close> that the stripping pass
  leaves of the rewritten text \<open>x\<close>, \<open>y\<close> has no match of the definition pattern, also none
  for a key without usage, and the output has none either unless the trim removed
  whitespace that does not end in a line feed in front of an opening bracket.
\<close>

theorem C3_definitions_stripped:
  "(process_file content = No_reference_links \<and>
      re_findall reference_pattern (output_text content) = []) \<or>
   (\<exists>x y.
      x = re_sub usage_pattern (replace_link (dict (re_findall reference_pattern content))) content \<and>
      y = re_sub reference_pattern (\<lambda>m. []) x \<and>
      process_file content = Written (strip y) \<and> re_findall reference_pattern y = [] \<and>
      (strip y = [] \<or> hd (strip y) \<noteq> LBRACK \<or> bol (prev_of None (takeWhile isspace y)) \<longrightarrow>
         re_findall reference_pattern (output_text content) = []))"
proof (rule process_file_cases[of content])
  assume "process_file content = No_reference_links" "re_findall reference_pattern content = []"
  then show ?thesis by (simp add: output_text_def)
next
  fix y
  assume y: "process_file content = Written (strip y)" "re_findall reference_pattern y = []"
    "y = re_sub reference_pattern (\<lambda>m. [])
         (re_sub usage_pattern (replace_link (dict (re_findall reference_pattern content))) content)"
  have "re_findall reference_pattern (output_text content) = []"
    if "strip y = [] \<or> hd (strip y) \<noteq> LBRACK \<or> bol (prev_of None (takeWhile isspace y))"
  proof -
    have "no_match (scan reference_pattern None (strip y))"
      using y(2) that unfolding findall_no_match by (rule no_definition_after_trim)
    then show ?thesis by (simp add: output_text_def y(1) findall_no_match)
  qed
  with y show ?thesis by blast
qed

text \<open>
  Claim C3 as stated fails: the indented first line is no definition for the pattern, the
  second line is one; after stripping it the trim removes the indentation, and the output
  \<open>"[a]: x"\<close> is a line that matches the definition pattern.
\<close>

theorem C3_counterexample:
  "process_file (str_of '' [a]: x\<newline>[b]: y'') = Written (str_of ''[a]: x'') \<and>
   re_findall reference_pattern (output_text (str_of '' [a]: x\<newline>[b]: y'')) =
     [(str_of ''a'', str_of ''x'')]"
  by (simp add: eval_simps)

theorem C3_witness:
  "process_file (str_of ''See [T][r].\<newline>\<newline>[r]: u\<newline>[s]: v'') = Written (str_of ''See [T](u).'') \<and>
   hd (str_of ''See [T](u).'') \<noteq> LBRACK \<and>
   re_findall reference_pattern (output_text (str_of ''See [T][r].\<newline>\<newline>[r]: u\<newline>[s]: v'')) = []"
proof -
  let ?c = "str_of ''See [T][r].\<newline>\<newline>[r]: u\<newline>[s]: v''"
  have p: "process_file ?c = Written (str_of ''See [T](u).'')" by (simp add: eval_simps)
  have h: "hd (str_of ''See [T](u).'') \<noteq> LBRACK" by (simp add: eval_simps)
  from C3_definitions_stripped[of ?c] p h
  have "re_findall reference_pattern (output_text ?c) = []" by auto
  with p h show ?thesis by blast
qed

text \<open>
  Claim C5, as amended.  A second run leaves the result of the first unchanged whenever
  that result has no match of the definition pattern; this is so when the first run found
  no definition, and when its result is empty or does not begin with an opening bracket.
\<close>

theorem C5_idempotent:
  assumes "process_file content = No_reference_links \<or>
     re_findall reference_pattern (output_text content) = [] \<or>
     output_text content = [] \<or> hd (output_text content) \<noteq> LBRACK"
  shows "output_text (output_text content) = output_text content"
proof -
  have "re_findall reference_pattern (output_text content) = []"
  proof (rule process_file_cases[of content])
    assume "process_file content = No_reference_links" "re_findall reference_pattern content = []"
    then show ?thesis by (simp add: output_text_def)
  next
    fix y
    assume y: "process_file content = Written (strip y)" "re_findall reference_pattern y = []"
    then have o: "output_text content = strip y" by (simp add: output_text_def)
    from assms y(1) have "re_findall reference_pattern (strip y) = [] \<or> strip y = [] \<or> hd (strip y) \<noteq> LBRACK"
      unfolding o by auto
    then show ?thesis
    proof
      assume "re_findall reference_pattern (strip y) = []"
      then show ?thesis unfolding o .
    next
      assume "strip y = [] \<or> hd (strip y) \<noteq> LBRACK"
      then have "strip y = [] \<or> hd (strip y) \<noteq> LBRACK \<or> bol (prev_of None (takeWhile isspace y))"
        by blast
      with y(2) have "no_match (scan reference_pattern None (strip y))"
        unfolding findall_no_match by (rule no_definition_after_trim)
      then show ?thesis unfolding o findall_no_match .
    qed
  qed
  then have "process_file (output_text content) = No_reference_links"
    by (simp add: process_file_def dict_def)
  then show ?thesis by (simp add: output_text_def)
qed

text \<open>
  Claim C5 as stated fails: the first run turns the document into \<open>"[a]: x"\<close>, the second
  run strips that line.
\<close>

theorem C5_counterexample:
  "output_text (str_of '' [a]: x\<newline>[b]: y'') = str_of ''[a]: x'' \<and>
   output_text (output_text (str_of '' [a]: x\<newline>[b]: y'')) = [] \<and>
   output_text (output_text (str_of '' [a]: x\<newline>[b]: y'')) \<noteq> output_text (str_of '' [a]: x\<newline>[b]: y'')"
  by (simp add: eval_simps)

theorem C5_witness:
  "hd (output_text (str_of ''See [T][r].\<newline>\<newline>[r]: u'')) \<noteq> LBRACK \<and>
   output_text (str_of ''See [T][r].\<newline>\<newline>[r]: u'') = str_of ''See [T](u).'' \<and>
   output_text (output_text (str_of ''See [T][r].\<newline>\<newline>[r]: u'')) =
     output_text (str_of ''See [T][r].\<newline>\<newline>[r]: u'')"
proof -
  let ?c = "str_of ''See [T][r].\<newline>\<newline>[r]: u''"
  have h: "hd (output_text ?c) \<noteq> LBRACK" by (simp add: eval_simps)
  have o: "output_text ?c = str_of ''See [T](u).''" by (simp add: eval_simps)
  from h have "process_file ?c = No_reference_links \<or>
     re_findall reference_pattern (output_text ?c) = [] \<or>
     output_text ?c = [] \<or> hd (output_text ?c) \<noteq> LBRACK" by blast
  from C5_idempotent[OF this] h o show ?thesis by blast
qed

section \<open>The stripping scan over links and usages\<close>

lemma codepoint_distinct [simp]:
  "LPAREN \<noteq> COLON" "LBRACK \<noteq> COLON" "LPAREN \<noteq> NL" "RPAREN \<noteq> NL" "RBRACK \<noteq> NL"
  "LPAREN \<noteq> LBRACK" "RPAREN \<noteq> LBRACK" "RBRACK \<noteq> COLON" "COLON \<noteq> LBRACK"
  "NL \<noteq> LPAREN" "NL \<noteq> RPAREN" "NL \<noteq> RBRACK"
  by (simp_all add: LPAREN_def RPAREN_def COLON_def LBRACK_def RBRACK_def NL_def)

lemma not_isspace_brackets [simp]:
  "\<not> isspace LBRACK" "\<not> isspace RBRACK" "\<not> isspace LPAREN" "\<not> isspace RPAREN" "\<not> isspace COLON"
  by (simp_all add: isspace_def LPAREN_def RPAREN_def COLON_def LBRACK_def RBRACK_def)

text \<open>the definition scan inside a line, and over a link\<close>

lemma scan_reference_line:
  "\<not> bol pv \<Longrightarrow> NL \<notin> set l \<Longrightarrow>
     scan reference_pattern pv (l @ rest) = map Gap l @ scan reference_pattern (prev_of pv l) rest"
proof (induction l arbitrary: pv)
  case Nil
  then show ?case by simp
next
  case (Cons c l)
  have n: "match_at reference_pattern pv (c # l @ rest) = None"
    using Cons.prems(1) by (rule reference_None(1))
  have "\<not> bol (Some c)" using Cons.prems(2) by (auto simp: bol_def)
  from Cons.IH[OF this] Cons.prems(2)
  have "scan reference_pattern (Some c) (l @ rest) =
      map Gap l @ scan reference_pattern (prev_of (Some c) l) rest" by simp
  then show ?case using scan_None[OF n] by (simp add: prev_of_Cons del: scan.simps)
qed

lemma no_definition_at_bracket_pair:
  assumes "RBRACK \<notin> set T2" "d \<noteq> COLON"
  shows "match_at reference_pattern pv (c # T2 @ RBRACK # d # X) = None"
  unfolding reference_None_iff
proof
  assume "bol pv \<and> def_start (c # T2 @ RBRACK # d # X)"
  then obtain key s2 where k: "c # T2 @ RBRACK # d # X = LBRACK # key @ RBRACK # COLON # s2"
    "RBRACK \<notin> set key" unfolding def_start_decomp by blast
  then have e: "T2 @ RBRACK # d # X = key @ RBRACK # COLON # s2" by simp
  have "dropWhile (\<lambda>x. x \<noteq> RBRACK) (T2 @ RBRACK # d # X) = RBRACK # d # X"
    using assms(1) by (rule until_split(2))
  moreover have "dropWhile (\<lambda>x. x \<noteq> RBRACK) (key @ RBRACK # COLON # s2) = RBRACK # COLON # s2"
    using k(2) by (rule until_split(2))
  ultimately have "d = COLON" unfolding e by simp
  with assms(2) show False by simp
qed

lemma scan_reference_bracket_pair:
  assumes "RBRACK \<notin> set T2" "d \<noteq> COLON"
  shows "scan reference_pattern pv (T2 @ RBRACK # d # X) =
     map Gap (T2 @ [RBRACK]) @ scan reference_pattern (Some RBRACK) (d # X)"
  using assms(1)
proof (induction T2 arbitrary: pv)
  case Nil
  have "match_at reference_pattern pv (RBRACK # d # X) = None"
    by (rule reference_None(3)) simp
  from scan_None[OF this] show ?case by simp
next
  case (Cons c T2)
  then have r: "RBRACK \<notin> set T2" by simp
  have "match_at reference_pattern pv (c # T2 @ RBRACK # d # X) = None"
    using r assms(2) by (rule no_definition_at_bracket_pair)
  from scan_None[OF this] Cons.IH[OF r] show ?case by (simp del: scan.simps)
qed

lemma scan_reference_inline_link:
  assumes "RBRACK \<notin> set T" "NL \<notin> set U"
  shows "scan reference_pattern pv (inline_link T U @ b) =
     map Gap (inline_link T U) @ scan reference_pattern (Some RPAREN) b"
proof -
  have 1: "scan reference_pattern pv (LBRACK # T @ RBRACK # LPAREN # U @ RPAREN # b) =
      map Gap ((LBRACK # T) @ [RBRACK]) @ scan reference_pattern (Some RBRACK) (LPAREN # U @ RPAREN # b)"
    using scan_reference_bracket_pair[of "LBRACK # T" LPAREN pv "U @ RPAREN # b"] assms(1)
    by (simp del: scan.simps)
  have 2: "scan reference_pattern (Some RBRACK) ((LPAREN # U @ [RPAREN]) @ b) =
      map Gap (LPAREN # U @ [RPAREN]) @ scan reference_pattern (prev_of (Some RBRACK) (LPAREN # U @ [RPAREN])) b"
    by (rule scan_reference_line) (use assms(2) in \<open>simp_all add: bol_def\<close>)
  have 3: "prev_of (Some RBRACK) (LPAREN # U @ [RPAREN]) = Some RPAREN" by (simp add: prev_of_def)
  show ?thesis using 1 2 unfolding 3 by (simp add: inline_link_def del: scan.simps)
qed

lemma scan_reference_usage:
  assumes "RBRACK \<notin> set T" "NL \<notin> set x"
  shows "scan reference_pattern pv (usage_text T x @ b) =
     map Gap (usage_text T x) @ scan reference_pattern (Some RBRACK) b"
proof -
  have 1: "scan reference_pattern pv (LBRACK # T @ RBRACK # LBRACK # x @ RBRACK # b) =
      map Gap ((LBRACK # T) @ [RBRACK]) @ scan reference_pattern (Some RBRACK) (LBRACK # x @ RBRACK # b)"
    using scan_reference_bracket_pair[of "LBRACK # T" LBRACK pv "x @ RBRACK # b"] assms(1)
    by (simp del: scan.simps)
  have 2: "scan reference_pattern (Some RBRACK) ((LBRACK # x @ [RBRACK]) @ b) =
      map Gap (LBRACK # x @ [RBRACK]) @ scan reference_pattern (prev_of (Some RBRACK) (LBRACK # x @ [RBRACK])) b"
    by (rule scan_reference_line) (use assms(2) in \<open>simp_all add: bol_def\<close>)
  have 3: "prev_of (Some RBRACK) (LBRACK # x @ [RBRACK]) = Some RBRACK" by (simp add: prev_of_def)
  show ?thesis using 1 2 unfolding 3 by (simp add: usage_text_def del: scan.simps)
qed

text \<open>a text without opening bracket is passed by both scans\<close>

lemma reaches_no_bracket:
  assumes "LBRACK \<notin> set a"
  shows "scan_reaches usage_pattern pv a b" "scan_reaches reference_pattern pv a b"
proof -
  show "scan_reaches usage_pattern pv a b"
    using assms
  proof (induction a arbitrary: pv)
    case Nil
    then show ?case by simp
  next
    case (Cons c a)
    then have "match_at usage_pattern pv (c # a @ b) = None" by (intro usage_None(2)) auto
    moreover have "scan_reaches usage_pattern (Some c) a b" using Cons by simp
    ultimately show ?case by (rule reaches_gap)
  qed
  show "scan_reaches reference_pattern pv a b"
    using assms
  proof (induction a arbitrary: pv)
    case Nil
    then show ?case by simp
  next
    case (Cons c a)
    then have "match_at reference_pattern pv (c # a @ b) = None" by (intro reference_None(3)) auto
    moreover have "scan_reaches reference_pattern (Some c) a b" using Cons by simp
    ultimately show ?case by (rule reaches_gap)
  qed
qed

text \<open>what the trim keeps\<close>

lemma dropWhile_keeps:
  assumes "L \<noteq> []" "\<not> P (hd L)"
  shows "\<exists>a'. dropWhile P (a @ L @ b) = a' @ L @ b"
proof (cases "\<forall>x\<in>set a. P x")
  case True
  have "dropWhile P (L @ b) = L @ b" using assms by (cases L) auto
  with True show ?thesis by (intro exI[of _ "[]"]) (simp add: dropWhile_append)
next
  case False
  then show ?thesis by (intro exI[of _ "dropWhile P a"]) (auto simp: dropWhile_append)
qed

lemma strip_keeps:
  assumes "L \<noteq> []" "\<not> isspace (hd L)" "\<not> isspace (last L)"
  shows "sublist L (strip (a @ L @ b))"
proof -
  from dropWhile_keeps[of L isspace a b, OF assms(1,2)] obtain a' where
    1: "dropWhile isspace (a @ L @ b) = a' @ L @ b" by blast
  have "rev L \<noteq> []" "\<not> isspace (hd (rev L))" using assms(1,3) by (simp_all add: hd_rev)
  from dropWhile_keeps[of "rev L" isspace "rev b" "rev a'", OF this] obtain b' where
    2: "dropWhile isspace (rev b @ rev L @ rev a') = b' @ rev L @ rev a'" by blast
  have "strip (a @ L @ b) = a' @ L @ rev b'"
    unfolding strip_def 1 using 2 by simp
  then show ?thesis unfolding sublist_def by blast
qed

lemma strip_interior:
  assumes "\<exists>c\<in>set x. \<not> isspace c" "\<exists>c\<in>set z. \<not> isspace c"
  shows "strip (x @ y @ z) = dropWhile isspace x @ y @ rev (dropWhile isspace (rev z))"
proof -
  have 1: "dropWhile isspace (x @ y @ z) = dropWhile isspace x @ y @ z"
    using assms(1) by (auto simp: dropWhile_append)
  have 2: "dropWhile isspace (rev z @ rev y @ rev (dropWhile isspace x)) =
      dropWhile isspace (rev z) @ rev y @ rev (dropWhile isspace x)"
    using assms(2) by (auto simp: dropWhile_append)
  show ?thesis unfolding strip_def 1 using 2 by simp
qed

section \<open>Claim C1\<close>

lemma inline_link_ends:
  "inline_link T U \<noteq> []" "hd (inline_link T U) = LBRACK" "last (inline_link T U) = RPAREN"
  by (simp_all add: inline_link_def)

lemma usage_text_ends:
  "usage_text T r \<noteq> []" "hd (usage_text T r) = LBRACK" "last (usage_text T r) = RBRACK"
  by (simp_all add: usage_text_def)

lemma output_keeps:
  assumes "re_findall reference_pattern content \<noteq> []"
    and "re_sub usage_pattern (replace_link (dict (re_findall reference_pattern content))) content = a @ L @ b"
    and "scan_reaches reference_pattern None a (L @ b)"
    and "scan reference_pattern (prev_of None a) (L @ b) = map Gap L @ scan reference_pattern pv b"
    and "L \<noteq> []" "\<not> isspace (hd L)" "\<not> isspace (last L)"
  shows "sublist L (output_text content)"
proof -
  have "has_definition content" using assms(1) by (simp add: findall_Nil_iff)
  from process_file_definition[OF this]
  have o: "output_text content = strip (strip_defs None (a @ L @ b))"
    unfolding assms(2) re_sub_strip_defs by (simp add: output_text_def)
  from assms(3) obtain segs where
    "scan reference_pattern None (a @ L @ b) = segs @ scan reference_pattern (prev_of None a) (L @ b)"
    by (rule reaches_expand)
  then have "strip_defs None (a @ L @ b) =
      expand (\<lambda>m. []) segs @ L @ expand (\<lambda>m. []) (scan reference_pattern pv b)"
    unfolding strip_defs_def assms(4) by (simp add: expand_append)
  then show ?thesis unfolding o using strip_keeps[OF assms(5-7)] by simp
qed

text \<open>
  Claim C1, as amended.  When the table maps \<open>r\<close> to \<open>U\<close> and the rewriting scan arrives at
  a usage \<open>[T][r]\<close> of the document, the rewritten text has the inline link \<open>[T](U)\<close> in
  the place of that usage, between the rewritten text before it and the rewritten text
  after it; and when the stripping scan arrives at an occurrence of that link in the
  rewritten text, that is, when the link is not inside a definition that is stripped,
  the output contains \<open>[T](U)\<close>.  Nothing is said about other occurrences of the text
  \<open>[T][r]\<close>.
\<close>

theorem C1_usage_resolved:
  assumes "map_of (dict (re_findall reference_pattern content)) r = Some U"
    and "T \<noteq> []" "RBRACK \<notin> set T"
    and "content = pre @ usage_text T r @ post"
    and "scan_reaches usage_pattern None pre (usage_text T r @ post)"
  shows "(\<exists>segs.
      concat (map seg_text segs) = pre \<and>
      re_sub usage_pattern (replace_link (dict (re_findall reference_pattern content))) content =
        expand (replace_link (dict (re_findall reference_pattern content))) segs @
        inline_link T U @
        expand (replace_link (dict (re_findall reference_pattern content)))
          (scan usage_pattern (Some RBRACK) post)) \<and>
    (\<forall>a b.
      re_sub usage_pattern (replace_link (dict (re_findall reference_pattern content))) content =
        a @ inline_link T U @ b \<and>
      scan_reaches reference_pattern None a (inline_link T U @ b) \<longrightarrow>
        sublist (inline_link T U) (output_text content))"
proof -
  let ?tbl = "dict (re_findall reference_pattern content)"
  have rU: "(r, U) \<in> set (re_findall reference_pattern content)"
    using assms(1) by (rule dict_in_pairs)
  then have r: "r \<noteq> []" "RBRACK \<notin> set r" and U: "NL \<notin> set U"
    by (auto elim: findall_reference_origin)
  have ne: "re_findall reference_pattern content \<noteq> []" using rU by auto
  from rewrite_at[OF assms(5,2,3) r, of "replace_link ?tbl"] obtain segs where
    sg: "concat (map seg_text segs) = pre" and
    eq: "re_sub usage_pattern (replace_link ?tbl) (pre @ usage_text T r @ post) =
       expand (replace_link ?tbl) segs @
       replace_link ?tbl \<lparr>group0 = usage_text T r, group1 = T, group2 = r\<rparr> @
       expand (replace_link ?tbl) (scan usage_pattern (Some RBRACK) post)" by blast
  from eq have x: "re_sub usage_pattern (replace_link ?tbl) content =
       expand (replace_link ?tbl) segs @ inline_link T U @
       expand (replace_link ?tbl) (scan usage_pattern (Some RBRACK) post)"
    unfolding assms(4)[symmetric] replace_link_Some[OF assms(1)] .
  have "sublist (inline_link T U) (output_text content)"
    if "re_sub usage_pattern (replace_link ?tbl) content = a @ inline_link T U @ b"
      "scan_reaches reference_pattern None a (inline_link T U @ b)" for a b
    using ne that
  proof (rule output_keeps)
    show "scan reference_pattern (prev_of None a) (inline_link T U @ b) =
        map Gap (inline_link T U) @ scan reference_pattern (Some RPAREN) b"
      using assms(3) U by (rule scan_reference_inline_link)
  qed (simp_all add: inline_link_ends)
  with x sg show ?thesis by blast
qed

text \<open>
  Claim C1 as stated fails.  In the first document the usage stands in the target of a
  definition: it is rewritten, then the whole line is stripped, and the output is empty.
  In the second document the target of \<open>r\<close> is the text \<open>[T][r]\<close>, and the output
  contains that text.
\<close>

theorem C1_counterexample:
  "map_of (dict (re_findall reference_pattern (str_of ''[r]: u\<newline>[a]: [T][r]''))) (str_of ''r'') =
     Some (str_of ''u'') \<and>
   str_of ''[r]: u\<newline>[a]: [T][r]'' =
     str_of ''[r]: u\<newline>[a]: '' @ usage_text (str_of ''T'') (str_of ''r'') \<and>
   \<not> sublist (inline_link (str_of ''T'') (str_of ''u'')) (output_text (str_of ''[r]: u\<newline>[a]: [T][r]'')) \<and>
   map_of (dict (re_findall reference_pattern (str_of ''[T][r]\<newline>[r]: [T][r]''))) (str_of ''r'') =
     Some (str_of ''[T][r]'') \<and>
   output_text (str_of ''[T][r]\<newline>[r]: [T][r]'') =
     str_of ''[T]('' @ usage_text (str_of ''T'') (str_of ''r'') @ str_of '')''"
  by (simp add: eval_simps)

theorem C1_witness:
  "map_of (dict (re_findall reference_pattern (str_of ''See [T][r].\<newline>\<newline>[r]: u''))) (str_of ''r'') =
     Some (str_of ''u'') \<and>
   str_of ''See [T][r].\<newline>\<newline>[r]: u'' =
     str_of ''See '' @ usage_text (str_of ''T'') (str_of ''r'') @ str_of ''.\<newline>\<newline>[r]: u'' \<and>
   scan_reaches usage_pattern None (str_of ''See '')
     (usage_text (str_of ''T'') (str_of ''r'') @ str_of ''.\<newline>\<newline>[r]: u'') \<and>
   re_sub usage_pattern
       (replace_link (dict (re_findall reference_pattern (str_of ''See [T][r].\<newline>\<newline>[r]: u''))))
       (str_of ''See [T][r].\<newline>\<newline>[r]: u'') =
     str_of ''See '' @ inline_link (str_of ''T'') (str_of ''u'') @ str_of ''.\<newline>\<newline>[r]: u'' \<and>
   scan_reaches reference_pattern None (str_of ''See '')
     (inline_link (str_of ''T'') (str_of ''u'') @ str_of ''.\<newline>\<newline>[r]: u'') \<and>
   sublist (inline_link (str_of ''T'') (str_of ''u''))
     (output_text (str_of ''See [T][r].\<newline>\<newline>[r]: u''))"
proof -
  let ?c = "str_of ''See [T][r].\<newline>\<newline>[r]: u''"
  let ?post = "str_of ''.\<newline>\<newline>[r]: u''"
  have 1: "map_of (dict (re_findall reference_pattern ?c)) (str_of ''r'') = Some (str_of ''u'')"
    by (simp add: eval_simps)
  have 2: "str_of ''T'' \<noteq> []" "RBRACK \<notin> set (str_of ''T'')" by (simp_all add: eval_simps)
  have 3: "?c = str_of ''See '' @ usage_text (str_of ''T'') (str_of ''r'') @ ?post"
    by (simp add: eval_simps)
  have 4: "scan_reaches usage_pattern None (str_of ''See '')
     (usage_text (str_of ''T'') (str_of ''r'') @ ?post)"
    unfolding scan_reaches_def
    by (rule exI[of _ "map Gap (str_of ''See '')"]) (simp add: eval_simps)
  have 5: "re_sub usage_pattern (replace_link (dict (re_findall reference_pattern ?c))) ?c =
     str_of ''See '' @ inline_link (str_of ''T'') (str_of ''u'') @ ?post"
    by (simp add: eval_simps)
  have 6: "scan_reaches reference_pattern None (str_of ''See '')
     (inline_link (str_of ''T'') (str_of ''u'') @ ?post)"
    unfolding scan_reaches_def
    by (rule exI[of _ "map Gap (str_of ''See '')"]) (simp add: eval_simps)
  from C1_usage_resolved[OF 1 2 3 4] 5 6
  have "sublist (inline_link (str_of ''T'') (str_of ''u'')) (output_text ?c)" by blast
  with 1 3 4 5 6 show ?thesis by blast
qed

section \<open>Claim C4\<close>

text \<open>
  Claim C4, as amended.  In a document with at least one definition, a usage \<open>[T][x]\<close>
  that the rewriting scan arrives at and whose key has no entry in the table stays as it
  is in the rewritten text, between the rewritten text before it and the rewritten text
  after it; and when the key has no line feed and the stripping scan arrives at an
  occurrence of the usage in the rewritten text, that is, when the usage is not inside a
  definition that is stripped, the output contains \<open>[T][x]\<close>.
\<close>

theorem C4_dangling_usage_unchanged:
  assumes "re_findall reference_pattern content \<noteq> []"
    and "map_of (dict (re_findall reference_pattern content)) x = None"
    and "T \<noteq> []" "RBRACK \<notin> set T" "x \<noteq> []" "RBRACK \<notin> set x"
    and "content = pre @ usage_text T x @ post"
    and "scan_reaches usage_pattern None pre (usage_text T x @ post)"
  shows "(\<exists>segs.
      concat (map seg_text segs) = pre \<and>
      re_sub usage_pattern (replace_link (dict (re_findall reference_pattern content))) content =
        expand (replace_link (dict (re_findall reference_pattern content))) segs @
        usage_text T x @
        expand (replace_link (dict (re_findall reference_pattern content)))
          (scan usage_pattern (Some RBRACK) post)) \<and>
    (\<forall>a b.
      re_sub usage_pattern (replace_link (dict (re_findall reference_pattern content))) content =
        a @ usage_text T x @ b \<and>
      NL \<notin> set x \<and> scan_reaches reference_pattern None a (usage_text T x @ b) \<longrightarrow>
        sublist (usage_text T x) (output_text content))"
proof -
  let ?tbl = "dict (re_findall reference_pattern content)"
  from rewrite_at[OF assms(8,3-6), of "replace_link ?tbl"] obtain segs where
    sg: "concat (map seg_text segs) = pre" and
    eq: "re_sub usage_pattern (replace_link ?tbl) (pre @ usage_text T x @ post) =
       expand (replace_link ?tbl) segs @
       replace_link ?tbl \<lparr>group0 = usage_text T x, group1 = T, group2 = x\<rparr> @
       expand (replace_link ?tbl) (scan usage_pattern (Some RBRACK) post)" by blast
  from eq have y: "re_sub usage_pattern (replace_link ?tbl) content =
       expand (replace_link ?tbl) segs @ usage_text T x @
       expand (replace_link ?tbl) (scan usage_pattern (Some RBRACK) post)"
    unfolding assms(7)[symmetric] replace_link_None[OF assms(2)] .
  have "sublist (usage_text T x) (output_text content)"
    if "re_sub usage_pattern (replace_link ?tbl) content = a @ usage_text T x @ b"
      and nl: "NL \<notin> set x" and "scan_reaches reference_pattern None a (usage_text T x @ b)" for a b
    using assms(1) that(1,3)
  proof (rule output_keeps)
    show "scan reference_pattern (prev_of None a) (usage_text T x @ b) =
        map Gap (usage_text T x) @ scan reference_pattern (Some RBRACK) b"
      using assms(4) nl by (rule scan_reference_usage)
  qed (simp_all add: usage_text_ends)
  with y sg show ?thesis by blast
qed

text \<open>
  Claim C4 as stated fails: the usage \<open>[T][x]\<close> has no definition and stands in the target
  of the definition of \<open>a\<close>; the line is stripped and the output is empty.
\<close>

theorem C4_counterexample:
  "re_findall reference_pattern (str_of ''[a]: [T][x]'') = [(str_of ''a'', str_of ''[T][x]'')] \<and>
   map_of (dict (re_findall reference_pattern (str_of ''[a]: [T][x]''))) (str_of ''x'') = None \<and>
   str_of ''[a]: [T][x]'' = str_of ''[a]: '' @ usage_text (str_of ''T'') (str_of ''x'') \<and>
   output_text (str_of ''[a]: [T][x]'') = [] \<and>
   \<not> sublist (usage_text (str_of ''T'') (str_of ''x'')) (output_text (str_of ''[a]: [T][x]''))"
  by (simp add: eval_simps)

theorem C4_witness:
  "re_findall reference_pattern (str_of ''See [T][x].\<newline>\<newline>[r]: u'') \<noteq> [] \<and>
   map_of (dict (re_findall reference_pattern (str_of ''See [T][x].\<newline>\<newline>[r]: u''))) (str_of ''x'') = None \<and>
   str_of ''See [T][x].\<newline>\<newline>[r]: u'' =
     str_of ''See '' @ usage_text (str_of ''T'') (str_of ''x'') @ str_of ''.\<newline>\<newline>[r]: u'' \<and>
   scan_reaches usage_pattern None (str_of ''See '')
     (usage_text (str_of ''T'') (str_of ''x'') @ str_of ''.\<newline>\<newline>[r]: u'') \<and>
   re_sub usage_pattern
       (replace_link (dict (re_findall reference_pattern (str_of ''See [T][x].\<newline>\<newline>[r]: u''))))
       (str_of ''See [T][x].\<newline>\<newline>[r]: u'') =
     str_of ''See '' @ usage_text (str_of ''T'') (str_of ''x'') @ str_of ''.\<newline>\<newline>[r]: u'' \<and>
   NL \<notin> set (str_of ''x'') \<and>
   scan_reaches reference_pattern None (str_of ''See '')
     (usage_text (str_of ''T'') (str_of ''x'') @ str_of ''.\<newline>\<newline>[r]: u'') \<and>
   sublist (usage_text (str_of ''T'') (str_of ''x''))
     (output_text (str_of ''See [T][x].\<newline>\<newline>[r]: u''))"
proof -
  let ?c = "str_of ''See [T][x].\<newline>\<newline>[r]: u''"
  let ?post = "str_of ''.\<newline>\<newline>[r]: u''"
  have 0: "re_findall reference_pattern ?c \<noteq> []" by (simp add: eval_simps)
  have 1: "map_of (dict (re_findall reference_pattern ?c)) (str_of ''x'') = None"
    by (simp add: eval_simps)
  have 2: "str_of ''T'' \<noteq> []" "RBRACK \<notin> set (str_of ''T'')"
    "str_of ''x'' \<noteq> []" "RBRACK \<notin> set (str_of ''x'')" by (simp_all add: eval_simps)
  have 3: "?c = str_of ''See '' @ usage_text (str_of ''T'') (str_of ''x'') @ ?post"
    by (simp add: eval_simps)
  have 4: "scan_reaches usage_pattern None (str_of ''See '')
     (usage_text (str_of ''T'') (str_of ''x'') @ ?post)"
    unfolding scan_reaches_def
    by (rule exI[of _ "map Gap (str_of ''See '')"]) (simp add: eval_simps)
  have 5: "re_sub usage_pattern (replace_link (dict (re_findall reference_pattern ?c))) ?c =
     str_of ''See '' @ usage_text (str_of ''T'') (str_of ''x'') @ ?post"
    by (simp add: eval_simps)
  have 6: "NL \<notin> set (str_of ''x'')" by (simp add: eval_simps)
  have 7: "scan_reaches reference_pattern None (str_of ''See '')
     (usage_text (str_of ''T'') (str_of ''x'') @ ?post)"
    unfolding scan_reaches_def
    by (rule exI[of _ "map Gap (str_of ''See '')"]) (simp add: eval_simps)
  from C4_dangling_usage_unchanged[OF 0 1 2 3 4] 5 6 7
  have "sublist (usage_text (str_of ''T'') (str_of ''x'')) (output_text ?c)" by blast
  with 0 1 3 4 5 6 7 show ?thesis by blast
qed

section \<open>The scan of a prefix, claim C9\<close>

text \<open>the matches of the two scans\<close>

lemma usage_seg:
  assumes "Match m \<in> set (scan usage_pattern pv s)"
  shows "group0 m = usage_text (group1 m) (group2 m)" "group1 m \<noteq> []" "RBRACK \<notin> set (group1 m)"
    "group2 m \<noteq> []" "RBRACK \<notin> set (group2 m)"
proof -
  from scan_Match_origin[OF assms] obtain a b n where
    "match_at usage_pattern (prev_of pv a) b = Some (n, m)" by blast
  then obtain T r where "T \<noteq> []" "RBRACK \<notin> set T" "r \<noteq> []" "RBRACK \<notin> set r"
    "m = \<lparr>group0 = LBRACK # T @ RBRACK # LBRACK # r @ [RBRACK], group1 = T, group2 = r\<rparr>"
    by (rule usage_matchE)
  then show "group0 m = usage_text (group1 m) (group2 m)" "group1 m \<noteq> []"
    "RBRACK \<notin> set (group1 m)" "group2 m \<noteq> []" "RBRACK \<notin> set (group2 m)"
    by (simp_all add: usage_text_def)
qed

lemma last_target:
  assumes "t \<noteq> []" "NL \<notin> set t"
  shows "last (LBRACK # key @ RBRACK # COLON # w @ t) \<noteq> NL"
proof -
  have "last (LBRACK # key @ RBRACK # COLON # w @ t) = last t" using assms(1) by simp
  moreover have "last t \<in> set t" using assms(1) by (rule last_in_set)
  ultimately show ?thesis using assms(2) by metis
qed

lemma reference_seg:
  assumes "Match m \<in> set (scan reference_pattern pv s)"
  shows "\<exists>w. group0 m = [LBRACK] @ group1 m @ [RBRACK, COLON] @ w @ group2 m \<and> (\<forall>c\<in>set w. isspace c)"
    "group1 m \<noteq> []" "RBRACK \<notin> set (group1 m)" "group2 m \<noteq> []" "NL \<notin> set (group2 m)"
    "group0 m \<noteq> []" "last (group0 m) \<noteq> NL"
proof -
  from scan_Match_origin[OF assms] obtain a b n where
    "match_at reference_pattern (prev_of pv a) b = Some (n, m)" by blast
  then obtain key w t where h: "key \<noteq> []" "RBRACK \<notin> set key" "\<forall>c\<in>set w. isspace c"
    "t \<noteq> []" "NL \<notin> set t"
    "m = \<lparr>group0 = LBRACK # key @ RBRACK # COLON # w @ t, group1 = key, group2 = t\<rparr>"
    by (rule reference_matchE)
  from h(3,6) show "\<exists>w. group0 m = [LBRACK] @ group1 m @ [RBRACK, COLON] @ w @ group2 m \<and>
      (\<forall>c\<in>set w. isspace c)" by (intro exI[of _ w]) simp
  from h show "group1 m \<noteq> []" "RBRACK \<notin> set (group1 m)" "group2 m \<noteq> []" "NL \<notin> set (group2 m)"
    "group0 m \<noteq> []" by simp_all
  from h(6) last_target[OF h(4,5)] show "last (group0 m) \<noteq> NL" by simp
qed

lemma stripped_prefix_ends_line:
  assumes "\<And>m. Match m \<in> set segs \<Longrightarrow> group0 m \<noteq> [] \<and> last (group0 m) \<noteq> NL"
    and "bol (prev_of None (concat (map seg_text segs)))"
  shows "expand (\<lambda>m. []) segs = [] \<or> last (expand (\<lambda>m. []) segs) = NL"
  using assms
proof (induction segs rule: rev_induct)
  case Nil
  then show ?case by simp
next
  case (snoc sg segs)
  show ?case
  proof (cases sg)
    case (Gap c)
    with snoc.prems(2) have "c = NL" by (simp add: bol_def)
    with Gap show ?thesis by (simp add: expand_append)
  next
    case (Match m)
    with snoc.prems(1)[of m] have g: "group0 m \<noteq> []" "last (group0 m) \<noteq> NL" by simp_all
    then have "prev_of None (concat (map seg_text (segs @ [sg]))) = Some (last (group0 m))"
      unfolding Match by (simp add: prev_of_def)
    with snoc.prems(2) g(2) show ?thesis by (simp add: bol_def)
  qed
qed

text \<open>the scan of a prefix\<close>

lemma try_down_SomeI:
  assumes "lo \<le> k" "k \<le> n" "f k = Some r" "\<forall>j. k < j \<and> j \<le> n \<longrightarrow> f j = None"
  shows "try_down f lo n = Some r"
  using assms
proof (induction n)
  case 0
  then show ?case by simp
next
  case (Suc n)
  show ?case
  proof (cases "k = Suc n")
    case True
    with Suc.prems show ?thesis by simp
  next
    case False
    with Suc.prems have kn: "k \<le> n" by simp
    from Suc.prems(4) kn have top: "f (Suc n) = None" by simp
    from Suc.prems(4) have "\<forall>j. k < j \<and> j \<le> n \<longrightarrow> f j = None" by simp
    from Suc.IH[OF Suc.prems(1) kn Suc.prems(3) this] top Suc.prems(1) kn
    show ?thesis by simp
  qed
qed

lemma target_offset_before_line_feeds:
  assumes "\<forall>x\<in>set w. isspace x" "c \<noteq> NL" "\<forall>x\<in>set r. x = NL"
  shows "target_offset (w @ c # r) = Some (length w)"
proof -
  let ?s = "w @ c # r"
  let ?f = "\<lambda>k. if takeWhile (\<lambda>x. x \<noteq> NL) (drop k ?s) = [] then None else Some k"
  have tw: "takeWhile isspace ?s = w @ takeWhile isspace (c # r)"
    using assms(1) by (simp add: takeWhile_append2)
  have 1: "length w \<le> length (takeWhile isspace ?s)" unfolding tw by simp
  have 2: "?f (length w) = Some (length w)" using assms(2) by simp
  have 3: "\<forall>j. length w < j \<and> j \<le> length (takeWhile isspace ?s) \<longrightarrow> ?f j = None"
  proof (intro allI impI)
    fix j assume j: "length w < j \<and> j \<le> length (takeWhile isspace ?s)"
    then have d: "drop j ?s = drop (j - length w - 1) r" by (simp add: drop_Cons')
    have "\<forall>x\<in>set (drop (j - length w - 1) r). x = NL"
      using assms(3) by (meson in_set_dropD)
    then have "takeWhile (\<lambda>x. x \<noteq> NL) (drop (j - length w - 1) r) = []"
      by (cases "drop (j - length w - 1) r") auto
    then have "takeWhile (\<lambda>x. x \<noteq> NL) (drop j ?s) = []" unfolding d .
    then show "?f j = None" by (simp only: refl if_True)
  qed
  show ?thesis unfolding target_offset_def by (rule try_down_SomeI[OF _ 1 2 3]) simp
qed

lemma reference_match_prefix:
  assumes "match_at reference_pattern pv (M @ r1 @ r2) = Some (length M, m)"
  shows "match_at reference_pattern pv (M @ r1) = Some (length M, m)"
  using assms
proof (rule reference_matchE)
  fix key w t rest
  assume h: "bol pv" "M @ r1 @ r2 = LBRACK # key @ RBRACK # COLON # w @ t @ rest"
    "key \<noteq> []" "RBRACK \<notin> set key" "\<forall>c\<in>set w. isspace c" "t \<noteq> []" "NL \<notin> set t"
    "rest = [] \<or> hd rest = NL" "length M = length key + 3 + length w + length t"
    "m = \<lparr>group0 = LBRACK # key @ RBRACK # COLON # w @ t, group1 = key, group2 = t\<rparr>"
    "isspace (hd t) \<Longrightarrow> length t = 1 \<and> (\<forall>c\<in>set rest. c = NL)"
  let ?G = "LBRACK # key @ RBRACK # COLON # w @ t"
  have e: "M @ (r1 @ r2) = ?G @ rest" using h(2) by simp
  have l: "length M = length ?G" using h(9) by simp
  from e l have "M = ?G \<and> r1 @ r2 = rest"
    using append_eq_append_conv[of M ?G "r1 @ r2" rest] by blast
  then have M: "M = ?G" and r: "r1 @ r2 = rest" by blast+
  from r h(8) have r1: "r1 = [] \<or> hd r1 = NL" by (cases r1) auto
  have off: "target_offset (w @ t @ r1) = Some (length w)"
  proof (cases "isspace (hd t)")
    case True
    from h(11)[OF True] have l: "length t = 1" and nl: "\<forall>c\<in>set rest. c = NL" by simp_all
    from l obtain c where t: "t = [c]" by (cases t) auto
    from h(7) t have c: "c \<noteq> NL" by auto
    from nl r have "\<forall>x\<in>set r1. x = NL" by auto
    from target_offset_before_line_feeds[OF h(5) c this] show ?thesis unfolding t by simp
  next
    case False
    have "target_offset (w @ (t @ r1)) = Some (length w)"
      by (rule target_offset_top[OF h(5)]) (use h(6) False in simp_all)
    then show ?thesis by simp
  qed
  have line: "takeWhile (\<lambda>x. x \<noteq> NL) (t @ r1) = t"
  proof -
    have "takeWhile (\<lambda>x. x \<noteq> NL) r1 = []" using r1 by (cases r1) auto
    moreover have "\<forall>x\<in>set t. x \<noteq> NL" using h(7) by auto
    ultimately show ?thesis by (simp add: takeWhile_append2)
  qed
  have "match_at reference_pattern pv (LBRACK # key @ RBRACK # COLON # (w @ t @ r1)) =
      Some (length M, m)"
    unfolding reference_match_exact[OF h(1,3,4) off] using line h(9,10) by simp
  then show ?thesis unfolding M by simp
qed

lemma usage_match_prefix:
  assumes "match_at usage_pattern pv (M @ r1 @ r2) = Some (length M, m)"
  shows "match_at usage_pattern pv (M @ r1) = Some (length M, m)"
  using assms
proof (rule usage_matchE)
  fix T r rest
  assume h: "M @ r1 @ r2 = LBRACK # T @ RBRACK # LBRACK # r @ RBRACK # rest"
    "T \<noteq> []" "RBRACK \<notin> set T" "r \<noteq> []" "RBRACK \<notin> set r"
    "length M = length T + length r + 4"
    "m = \<lparr>group0 = LBRACK # T @ RBRACK # LBRACK # r @ [RBRACK], group1 = T, group2 = r\<rparr>"
  let ?G = "LBRACK # T @ RBRACK # LBRACK # r @ [RBRACK]"
  have e: "M @ (r1 @ r2) = ?G @ rest" using h(1) by simp
  have l: "length M = length ?G" using h(6) by simp
  from e l have "M = ?G \<and> r1 @ r2 = rest"
    using append_eq_append_conv[of M ?G "r1 @ r2" rest] by blast
  then have M: "M = ?G" and r: "r1 @ r2 = rest" by blast+
  have "match_at usage_pattern pv (LBRACK # T @ RBRACK # LBRACK # r @ RBRACK # r1) =
      Some (length M, m)"
    unfolding usage_matchI[OF h(2,3,4,5)] using h(6,7) by simp
  then show ?thesis unfolding M by simp
qed

lemma scan_prefix:
  assumes ne: "\<And>pv x n m. match_at p pv x = Some (n, m) \<Longrightarrow> 0 < n"
    and mono: "\<And>pv x y. match_at p pv (x @ y) = None \<Longrightarrow> match_at p pv x = None"
    and stab: "\<And>pv M r1 r2 m. match_at p pv (M @ r1 @ r2) = Some (length M, m) \<Longrightarrow>
       match_at p pv (M @ r1) = Some (length M, m)"
  shows "scan p pv (a @ s) = segs @ scan p (prev_of pv a) s \<Longrightarrow>
     concat (map seg_text segs) = a \<Longrightarrow> scan p pv a = segs"
proof (induction segs arbitrary: a pv)
  case Nil
  then have a: "a = []" by simp
  have "match_at p pv [] = None"
  proof (cases "match_at p pv []")
    case None
    then show ?thesis .
  next
    case (Some r)
    obtain n m where "r = (n, m)" by (cases r)
    with Some have s: "match_at p pv [] = Some (n, m)" by simp
    from ne[OF s] match_at_le[OF s] show ?thesis by simp
  qed
  then show ?case unfolding a by simp
next
  case (Cons sg segs)
  show ?case
  proof (cases sg)
    case (Gap c)
    with Cons.prems(2) obtain a' where a: "a = c # a'" "concat (map seg_text segs) = a'"
      by auto
    show ?thesis
    proof (cases "match_at p pv (c # a' @ s)")
      case None
      from Cons.prems(1) have "scan p (Some c) (a' @ s) = segs @ scan p (prev_of (Some c) a') s"
        unfolding a(1) Gap using None by (simp add: prev_of_def)
      from Cons.IH[OF this a(2)] have ih: "scan p (Some c) a' = segs" .
      from None have "match_at p pv ((c # a') @ s) = None" by simp
      from mono[OF this] have "match_at p pv (c # a') = None" .
      from scan_None[OF this] ih show ?thesis unfolding a(1) Gap by simp
    next
      case (Some r)
      obtain n m where "r = (n, m)" by (cases r)
      with Some have sm: "match_at p pv (c # a' @ s) = Some (n, m)" by simp
      from ne[OF sm] have "0 < n" .
      from scan_Some[OF sm this] Cons.prems(1) show ?thesis unfolding a(1) Gap by simp
    qed
  next
    case (Match m)
    with Cons.prems(2) obtain a' where a: "a = group0 m @ a'" "concat (map seg_text segs) = a'"
      by auto
    show ?thesis
    proof (cases "match_at p pv (a @ s)")
      case None
      show ?thesis
      proof (cases "a @ s")
        case Nil
        with None Cons.prems(1) show ?thesis unfolding Match by simp
      next
        case (Cons c cs)
        with None have "match_at p pv (c # cs) = None" by simp
        from scan_None[OF this] Cons.prems(1) show ?thesis unfolding Match Cons by simp
      qed
    next
      case (Some r)
      obtain n m' where "r = (n, m')" by (cases r)
      with Some have sm: "match_at p pv (a @ s) = Some (n, m')" by simp
      from ne[OF sm] have n: "0 < n" .
      from scan_Some[OF sm n] Cons.prems(1)
      have mm: "m' = m" and rest: "scan p (prev_of pv (take n (a @ s))) (drop n (a @ s)) =
          segs @ scan p (prev_of pv a) s" unfolding Match by simp_all
      have g: "group0 m = take n (a @ s)" using match_at_group0[OF sm] mm by simp
      have le: "n \<le> length (a @ s)" using match_at_le[OF sm] .
      have len: "length (group0 m) = n" unfolding g using le by simp
      have tk: "take n (a @ s) = group0 m" using g by simp
      have dr: "drop n (a @ s) = a' @ s" unfolding a(1) using len by simp
      have pv: "prev_of pv a = prev_of (prev_of pv (group0 m)) a'"
        unfolding a(1) by (rule prev_of_append)
      from rest have "scan p (prev_of pv (group0 m)) (a' @ s) =
          segs @ scan p (prev_of (prev_of pv (group0 m)) a') s"
        unfolding tk dr pv .
      from Cons.IH[OF this a(2)] have ih: "scan p (prev_of pv (group0 m)) a' = segs" .
      from sm have "match_at p pv (group0 m @ a' @ s) = Some (length (group0 m), m)"
        unfolding a(1) len mm by simp
      from stab[OF this] have pm: "match_at p pv (group0 m @ a') = Some (length (group0 m), m)" .
      have "0 < length (group0 m)" using len n by simp
      from scan_Some[OF pm this] ih show ?thesis unfolding a(1) Match by simp
    qed
  qed
qed

lemma scan_prefix_reference:
  assumes "scan reference_pattern pv (a @ s) = segs @ scan reference_pattern (prev_of pv a) s"
    "concat (map seg_text segs) = a"
  shows "scan reference_pattern pv a = segs"
proof (rule scan_prefix[OF _ _ _ assms])
  show "0 < n" if "match_at reference_pattern pv x = Some (n, m)" for pv x n m
    using that by (rule match_nonempty(2))
  show "match_at reference_pattern pv x = None"
    if "match_at reference_pattern pv (x @ y) = None" for pv x y
    using that unfolding reference_None_iff by (blast dest: def_start_append)
  show "match_at reference_pattern pv (M @ r1) = Some (length M, m)"
    if "match_at reference_pattern pv (M @ r1 @ r2) = Some (length M, m)" for pv M r1 r2 m
    using that by (rule reference_match_prefix)
qed

lemma usage_match_mono:
  assumes "match_at usage_pattern pv (x @ y) = None"
  shows "match_at usage_pattern pv x = None"
proof (cases "match_at usage_pattern pv x")
  case None
  then show ?thesis .
next
  case (Some r)
  obtain n m where "r = (n, m)" by (cases r)
  with Some have "match_at usage_pattern pv x = Some (n, m)" by simp
  then obtain T k rest where h: "x = LBRACK # T @ RBRACK # LBRACK # k @ RBRACK # rest"
    "T \<noteq> []" "RBRACK \<notin> set T" "k \<noteq> []" "RBRACK \<notin> set k"
    by (rule usage_matchE)
  from usage_matchI[OF h(2-5), of pv "rest @ y"] assms show ?thesis unfolding h(1) by simp
qed

lemma scan_prefix_usage:
  assumes "scan usage_pattern pv (a @ s) = segs @ scan usage_pattern (prev_of pv a) s"
    "concat (map seg_text segs) = a"
  shows "scan usage_pattern pv a = segs"
proof (rule scan_prefix[OF _ _ _ assms])
  show "0 < n" if "match_at usage_pattern pv x = Some (n, m)" for pv x n m
    using that by (rule match_nonempty(1))
  show "match_at usage_pattern pv x = None"
    if "match_at usage_pattern pv (x @ y) = None" for pv x y
    using that by (rule usage_match_mono)
  show "match_at usage_pattern pv (M @ r1) = Some (length M, m)"
    if "match_at usage_pattern pv (M @ r1 @ r2) = Some (length M, m)" for pv M r1 r2 m
    using that by (rule usage_match_prefix)
qed

lemma last_dropWhile:
  assumes "dropWhile P xs \<noteq> []"
  shows "last (dropWhile P xs) = last xs"
proof -
  have "last (takeWhile P xs @ dropWhile P xs) = last (dropWhile P xs)"
    using assms by (rule last_appendR)
  then show ?thesis by simp
qed

lemma output_stripped:
  assumes "re_findall reference_pattern content \<noteq> []"
    and "re_sub usage_pattern (replace_link (dict (re_findall reference_pattern content))) content = x"
  shows "output_text content = strip (strip_defs None x)"
proof -
  have "has_definition content" using assms(1) by (simp add: findall_Nil_iff)
  from process_file_definition[OF this] show ?thesis
    unfolding assms(2) re_sub_strip_defs by (simp add: output_text_def)
qed

text \<open>
  Claim C9, as amended.  Let the stripping scan arrive, in the rewritten text, at a match
  of the reference pattern; the match can run over several lines.  It ends before the
  line feed that ends its last line.  The output is the trimmed text made of the stripped
  text before the match, which is empty or ends in a line feed, and the stripped rest,
  which starts with the line feed that followed the match.  When text other than
  whitespace remains before and after in the stripped text, the output has an empty line
  at that place: the stripped text before, from its first character that is not
  whitespace on, ends in a line feed and the kept line feed follows it.  When only
  whitespace remains before, or only whitespace after, the trim removes the line feed
  with it: the output is the trimmed other part.
\<close>

theorem C9_stripping_keeps_line_feed:
  assumes "re_findall reference_pattern content \<noteq> []"
    and "re_sub usage_pattern (replace_link (dict (re_findall reference_pattern content))) content = a @ s"
    and "scan_reaches reference_pattern None a s"
    and "match_at reference_pattern (prev_of None a) s = Some (n, m)"
  shows "\<exists>rest. s = group0 m @ rest \<and> last (group0 m) \<noteq> NL \<and> (rest = [] \<or> hd rest = NL) \<and>
    (strip_defs None a = [] \<or> last (strip_defs None a) = NL) \<and>
    output_text content = strip (strip_defs None a @ strip_defs (Some (last (group0 m))) rest) \<and>
    (\<forall>b. rest = NL # b \<longrightarrow>
       strip_defs (Some (last (group0 m))) rest = NL # strip_defs (Some NL) b \<and>
       ((\<exists>c\<in>set (strip_defs None a). \<not> isspace c) \<and>
        (\<exists>c\<in>set (strip_defs (Some NL) b). \<not> isspace c) \<longrightarrow>
          (\<exists>p. dropWhile isspace (strip_defs None a) = p @ [NL] \<and>
             output_text content =
               p @ [NL, NL] @ rev (dropWhile isspace (rev (strip_defs (Some NL) b)))))) \<and>
    ((\<forall>c\<in>set (strip_defs None a). isspace c) \<longrightarrow>
       output_text content = strip (strip_defs (Some (last (group0 m))) rest)) \<and>
    ((\<forall>c\<in>set (strip_defs (Some (last (group0 m))) rest). isspace c) \<longrightarrow>
       output_text content = strip (strip_defs None a))"
proof -
  from assms(3) obtain segs where segs: "concat (map seg_text segs) = a"
    "scan reference_pattern None (a @ s) = segs @ scan reference_pattern (prev_of None a) s"
    by (rule reaches_expand)
  have pre: "scan reference_pattern None a = segs" using segs(2,1) by (rule scan_prefix_reference)
  let ?a' = "strip_defs None a"
  have a': "?a' = expand (\<lambda>m. []) segs" unfolding strip_defs_def pre ..
  have out: "output_text content = strip (strip_defs None (a @ s))"
    using assms(1,2) by (rule output_stripped)
  from assms(4) show ?thesis
  proof (rule scan_reference_match)
    fix key w t rest
    assume h: "bol (prev_of None a)" "s = LBRACK # key @ RBRACK # COLON # w @ t @ rest"
      "t \<noteq> []" "NL \<notin> set t" "rest = [] \<or> hd rest = NL"
      "m = \<lparr>group0 = LBRACK # key @ RBRACK # COLON # w @ t, group1 = key, group2 = t\<rparr>"
      "scan reference_pattern (prev_of None a) s =
         Match m # scan reference_pattern (Some (last t)) rest"
    let ?r' = "strip_defs (Some (last (group0 m))) rest"
    have 1: "s = group0 m @ rest" using h(2,6) by simp
    have 2: "last (group0 m) \<noteq> NL" using h(6) last_target[OF h(3,4)] by simp
    have lt: "last (group0 m) = last t" using h(3,6) by simp
    have 3: "?a' = [] \<or> last ?a' = NL"
      unfolding a'
    proof (rule stripped_prefix_ends_line)
      fix m' assume "Match m' \<in> set segs"
      then have "Match m' \<in> set (scan reference_pattern None (a @ s))" unfolding segs(2) by simp
      then show "group0 m' \<noteq> [] \<and> last (group0 m') \<noteq> NL"
        using reference_seg(6,7) by blast
    next
      show "bol (prev_of None (concat (map seg_text segs)))" unfolding segs(1) by (rule h(1))
    qed
    have x: "strip_defs None (a @ s) = ?a' @ ?r'"
      unfolding lt a' unfolding strip_defs_def segs(2) h(7) by (simp add: expand_append)
    have 4: "output_text content = strip (?a' @ ?r')" unfolding out x ..
    have 5: "?r' = NL # strip_defs (Some NL) b \<and>
       ((\<exists>c\<in>set ?a'. \<not> isspace c) \<and> (\<exists>c\<in>set (strip_defs (Some NL) b). \<not> isspace c) \<longrightarrow>
          (\<exists>p. dropWhile isspace ?a' = p @ [NL] \<and>
             output_text content =
               p @ [NL, NL] @ rev (dropWhile isspace (rev (strip_defs (Some NL) b)))))"
      if b: "rest = NL # b" for b
    proof
      show r': "?r' = NL # strip_defs (Some NL) b" unfolding b by simp
      show "(\<exists>c\<in>set ?a'. \<not> isspace c) \<and> (\<exists>c\<in>set (strip_defs (Some NL) b). \<not> isspace c) \<longrightarrow>
          (\<exists>p. dropWhile isspace ?a' = p @ [NL] \<and>
             output_text content =
               p @ [NL, NL] @ rev (dropWhile isspace (rev (strip_defs (Some NL) b))))"
      proof
        assume g: "(\<exists>c\<in>set ?a'. \<not> isspace c) \<and> (\<exists>c\<in>set (strip_defs (Some NL) b). \<not> isspace c)"
        then have g1: "\<exists>c\<in>set ?a'. \<not> isspace c"
          and g2: "\<exists>c\<in>set (strip_defs (Some NL) b). \<not> isspace c" by blast+
        from g1 have ne: "dropWhile isspace ?a' \<noteq> []" by (simp add: dropWhile_eq_Nil_conv)
        from g1 have "?a' \<noteq> []" by auto
        with 3 have "last ?a' = NL" by blast
        with last_dropWhile[OF ne] have "last (dropWhile isspace ?a') = NL" by simp
        with ne have p: "dropWhile isspace ?a' = butlast (dropWhile isspace ?a') @ [NL]"
          using append_butlast_last_id[OF ne] by simp
        have "strip (?a' @ [NL] @ strip_defs (Some NL) b) =
            dropWhile isspace ?a' @ [NL] @ rev (dropWhile isspace (rev (strip_defs (Some NL) b)))"
          using g1 g2 by (rule strip_interior)
        then have "output_text content =
            dropWhile isspace ?a' @ [NL] @ rev (dropWhile isspace (rev (strip_defs (Some NL) b)))"
          unfolding 4 r' by simp
        then have "output_text content =
            (butlast (dropWhile isspace ?a') @ [NL]) @ [NL] @
              rev (dropWhile isspace (rev (strip_defs (Some NL) b)))"
          using p by simp
        then have "output_text content =
            butlast (dropWhile isspace ?a') @ [NL, NL] @
              rev (dropWhile isspace (rev (strip_defs (Some NL) b)))" by simp
        with p show "\<exists>p. dropWhile isspace ?a' = p @ [NL] \<and>
             output_text content =
               p @ [NL, NL] @ rev (dropWhile isspace (rev (strip_defs (Some NL) b)))"
          by blast
      qed
    qed
    have 6: "output_text content = strip ?r'" if "\<forall>c\<in>set ?a'. isspace c"
    proof -
      from that have "strip (?a' @ ?r') = strip ?r'" by (simp add: strip_def dropWhile_append)
      with 4 show ?thesis by simp
    qed
    have 7: "output_text content = strip ?a'" if w: "\<forall>c\<in>set ?r'. isspace c"
    proof -
      have "strip (?a' @ ?r') = strip ?a'"
      proof (cases "\<forall>c\<in>set ?a'. isspace c")
        case True
        have e1: "dropWhile isspace ?a' = []" using True by (simp only: dropWhile_eq_Nil_conv)
        have e3: "dropWhile isspace (?a' @ ?r') = []"
          using True w by (simp only: dropWhile_eq_Nil_conv set_append) blast
        show ?thesis unfolding strip_def e1 e3 ..
      next
        case False
        then have d: "dropWhile isspace (?a' @ ?r') = dropWhile isspace ?a' @ ?r'"
          by (auto simp: dropWhile_append)
        have "dropWhile isspace (rev ?r' @ rev (dropWhile isspace ?a')) =
            dropWhile isspace (rev (dropWhile isspace ?a'))"
          using w by (simp add: dropWhile_append)
        then show ?thesis unfolding strip_def d by simp
      qed
      with 4 show ?thesis by simp
    qed
    from 1 2 h(5) 3 4 5 6 7 show ?thesis by blast
  qed
qed

text \<open>
  Claim C9 as stated fails.  In this document \<open>[k]: u\<close> is a definition line between two
  other lines.  Its line feed is kept by the stripping pass, but nothing except line feeds
  follows in the stripped text, and the trim removes them: the output is \<open>a\<close>, without
  empty line.
\<close>

theorem C9_counterexample:
  "split_lines (str_of ''a\<newline>[k]: u\<newline>[j]: v'') = [str_of ''a'', str_of ''[k]: u'', str_of ''[j]: v''] \<and>
   definition_line (str_of ''[k]: u'') \<and>
   re_sub reference_pattern (\<lambda>m. []) (str_of ''a\<newline>[k]: u\<newline>[j]: v'') = str_of ''a\<newline>\<newline>'' \<and>
   output_text (str_of ''a\<newline>[k]: u\<newline>[j]: v'') = str_of ''a'' \<and>
   NL \<notin> set (output_text (str_of ''a\<newline>[k]: u\<newline>[j]: v''))"
  by (simp add: definition_line_def eval_simps)

theorem C9_witness:
  "re_findall reference_pattern (str_of ''a\<newline>[k]: u\<newline>b'') \<noteq> [] \<and>
   re_sub usage_pattern (replace_link (dict (re_findall reference_pattern (str_of ''a\<newline>[k]: u\<newline>b''))))
     (str_of ''a\<newline>[k]: u\<newline>b'') = str_of ''a\<newline>'' @ str_of ''[k]: u\<newline>b'' \<and>
   scan_reaches reference_pattern None (str_of ''a\<newline>'') (str_of ''[k]: u\<newline>b'') \<and>
   match_at reference_pattern (prev_of None (str_of ''a\<newline>'')) (str_of ''[k]: u\<newline>b'') =
     Some (6, \<lparr>group0 = str_of ''[k]: u'', group1 = str_of ''k'', group2 = str_of ''u''\<rparr>) \<and>
   strip_defs None (str_of ''a\<newline>'') = str_of ''a\<newline>'' \<and>
   strip_defs (Some NL) (str_of ''b'') = str_of ''b'' \<and>
   output_text (str_of ''a\<newline>[k]: u\<newline>b'') = str_of ''a\<newline>\<newline>b'' \<and>
   (\<exists>p. dropWhile isspace (strip_defs None (str_of ''a\<newline>'')) = p @ [NL] \<and>
      output_text (str_of ''a\<newline>[k]: u\<newline>b'') =
        p @ [NL, NL] @ rev (dropWhile isspace (rev (strip_defs (Some NL) (str_of ''b'')))))"
proof -
  let ?c = "str_of ''a\<newline>[k]: u\<newline>b''"
  let ?a = "str_of ''a\<newline>''" and ?s = "str_of ''[k]: u\<newline>b''"
  let ?m = "\<lparr>group0 = str_of ''[k]: u'', group1 = str_of ''k'', group2 = str_of ''u''\<rparr>"
  have 0: "re_findall reference_pattern ?c \<noteq> []" by (simp add: eval_simps)
  have 1: "re_sub usage_pattern (replace_link (dict (re_findall reference_pattern ?c))) ?c = ?a @ ?s"
    by (simp add: eval_simps)
  have 2: "scan_reaches reference_pattern None ?a ?s"
    unfolding scan_reaches_def by (rule exI[of _ "map Gap ?a"]) (simp add: eval_simps)
  have 3: "match_at reference_pattern (prev_of None ?a) ?s = Some (6, ?m)"
    by (simp add: eval_simps)
  have 4: "strip_defs None ?a = str_of ''a\<newline>''" by (simp add: strip_defs_def eval_simps)
  have 5: "strip_defs (Some NL) (str_of ''b'') = str_of ''b''"
    by (simp add: strip_defs_def eval_simps)
  have 6: "output_text ?c = str_of ''a\<newline>\<newline>b''" by (simp add: eval_simps)
  from C9_stripping_keeps_line_feed[OF 0 1 2 3] obtain rest where
    r: "?s = group0 ?m @ rest"
    "\<forall>b. rest = NL # b \<longrightarrow>
       ((\<exists>c\<in>set (strip_defs None ?a). \<not> isspace c) \<and>
        (\<exists>c\<in>set (strip_defs (Some NL) b). \<not> isspace c) \<longrightarrow>
          (\<exists>p. dropWhile isspace (strip_defs None ?a) = p @ [NL] \<and>
             output_text ?c = p @ [NL, NL] @ rev (dropWhile isspace (rev (strip_defs (Some NL) b)))))"
    by blast
  from r(1) have rest: "rest = NL # str_of ''b''" by (simp add: eval_simps)
  have g1: "\<exists>c\<in>set (strip_defs None ?a). \<not> isspace c" unfolding 4 by (simp add: eval_simps)
  have g2: "\<exists>c\<in>set (strip_defs (Some NL) (str_of ''b'')). \<not> isspace c"
    unfolding 5 by (simp add: eval_simps)
  from r(2) rest g1 g2 have "\<exists>p. dropWhile isspace (strip_defs None ?a) = p @ [NL] \<and>
      output_text ?c = p @ [NL, NL] @ rev (dropWhile isspace (rev (strip_defs (Some NL) (str_of ''b''))))"
    by blast
  with 0 1 2 3 4 5 6 show ?thesis by blast
qed

section \<open>Claims C10 and C7\<close>

text \<open>brackets without content\<close>

lemma no_usage_at_empty_key:
  assumes "RBRACK \<notin> set T2"
  shows "match_at usage_pattern pv (c # T2 @ RBRACK # LBRACK # RBRACK # s) = None"
proof (cases "match_at usage_pattern pv (c # T2 @ RBRACK # LBRACK # RBRACK # s)")
  case None
  then show ?thesis .
next
  case (Some a)
  obtain n m where "a = (n, m)" by (cases a)
  with Some have "match_at usage_pattern pv (c # T2 @ RBRACK # LBRACK # RBRACK # s) = Some (n, m)"
    by simp
  then obtain T r rest where h:
    "c # T2 @ RBRACK # LBRACK # RBRACK # s = LBRACK # T @ RBRACK # LBRACK # r @ RBRACK # rest"
    "RBRACK \<notin> set T" "r \<noteq> []" "RBRACK \<notin> set r"
    by (rule usage_matchE)
  from h(1) have e: "T2 @ RBRACK # LBRACK # RBRACK # s = T @ RBRACK # LBRACK # r @ RBRACK # rest"
    by simp
  have "dropWhile (\<lambda>x. x \<noteq> RBRACK) (T2 @ RBRACK # LBRACK # RBRACK # s) = RBRACK # LBRACK # RBRACK # s"
    using assms by (rule until_split(2))
  moreover have "dropWhile (\<lambda>x. x \<noteq> RBRACK) (T @ RBRACK # LBRACK # r @ RBRACK # rest) =
      RBRACK # LBRACK # r @ RBRACK # rest"
    using h(2) by (rule until_split(2))
  ultimately have "RBRACK # s = r @ RBRACK # rest" unfolding e by simp
  with h(3,4) have False by (cases r) auto
  then show ?thesis ..
qed

lemma scan_usage_empty_key:
  assumes "RBRACK \<notin> set T2"
  shows "scan usage_pattern pv (T2 @ RBRACK # LBRACK # RBRACK # s) =
     map Gap (T2 @ [RBRACK, LBRACK, RBRACK]) @ scan usage_pattern (Some RBRACK) s"
  using assms
proof (induction T2 arbitrary: pv)
  case Nil
  have 1: "match_at usage_pattern pv (RBRACK # LBRACK # RBRACK # s) = None"
    by (rule usage_None(2)) simp
  have 2: "match_at usage_pattern (Some RBRACK) (LBRACK # RBRACK # s) = None"
    by (rule usage_None(3))
  have 3: "match_at usage_pattern (Some LBRACK) (RBRACK # s) = None"
    by (rule usage_None(2)) simp
  show ?case using scan_None[OF 1] scan_None[OF 2] scan_None[OF 3] by (simp del: scan.simps)
next
  case (Cons c T2)
  then have r: "RBRACK \<notin> set T2" by simp
  have "match_at usage_pattern pv (c # T2 @ RBRACK # LBRACK # RBRACK # s) = None"
    using r by (rule no_usage_at_empty_key)
  from scan_None[OF this] Cons.IH[OF r] show ?case by (simp del: scan.simps)
qed

lemma no_usage_at_single_pair:
  assumes "RBRACK \<notin> set r2"
    and np: "\<And>k rest. post = LBRACK # k @ RBRACK # rest \<Longrightarrow> k \<noteq> [] \<Longrightarrow> RBRACK \<notin> set k \<Longrightarrow> False"
  shows "match_at usage_pattern pv (c # r2 @ RBRACK # post) = None"
proof (cases "match_at usage_pattern pv (c # r2 @ RBRACK # post)")
  case None
  then show ?thesis .
next
  case (Some a)
  obtain n m where "a = (n, m)" by (cases a)
  with Some have "match_at usage_pattern pv (c # r2 @ RBRACK # post) = Some (n, m)" by simp
  then obtain T r rest where h:
    "c # r2 @ RBRACK # post = LBRACK # T @ RBRACK # LBRACK # r @ RBRACK # rest"
    "RBRACK \<notin> set T" "r \<noteq> []" "RBRACK \<notin> set r"
    by (rule usage_matchE)
  from h(1) have e: "r2 @ RBRACK # post = T @ RBRACK # LBRACK # r @ RBRACK # rest" by simp
  have "dropWhile (\<lambda>x. x \<noteq> RBRACK) (r2 @ RBRACK # post) = RBRACK # post"
    using assms(1) by (rule until_split(2))
  moreover have "dropWhile (\<lambda>x. x \<noteq> RBRACK) (T @ RBRACK # LBRACK # r @ RBRACK # rest) =
      RBRACK # LBRACK # r @ RBRACK # rest"
    using h(2) by (rule until_split(2))
  ultimately have "post = LBRACK # r @ RBRACK # rest" unfolding e by simp
  from np[OF this h(3,4)] show ?thesis ..
qed

lemma scan_usage_single_pair:
  assumes "RBRACK \<notin> set r2"
    and np: "\<And>k rest. post = LBRACK # k @ RBRACK # rest \<Longrightarrow> k \<noteq> [] \<Longrightarrow> RBRACK \<notin> set k \<Longrightarrow> False"
  shows "scan usage_pattern pv (r2 @ RBRACK # post) =
     map Gap (r2 @ [RBRACK]) @ scan usage_pattern (Some RBRACK) post"
  using assms(1)
proof (induction r2 arbitrary: pv)
  case Nil
  have "match_at usage_pattern pv (RBRACK # post) = None"
    by (rule usage_None(2)) simp
  from scan_None[OF this] show ?case by (simp del: scan.simps)
next
  case (Cons c r2)
  then have r: "RBRACK \<notin> set r2" by simp
  have "match_at usage_pattern pv (c # r2 @ RBRACK # post) = None"
    using r np by (rule no_usage_at_single_pair)
  from scan_None[OF this] Cons.IH[OF r] show ?case by (simp del: scan.simps)
qed

lemma scan_usage_pair_None:
  assumes "match_at usage_pattern pv (LBRACK # r @ RBRACK # post) = None" "RBRACK \<notin> set r"
  shows "scan usage_pattern pv (LBRACK # r @ RBRACK # post) =
     map Gap (LBRACK # r @ [RBRACK]) @ scan usage_pattern (Some RBRACK) post"
proof (cases "r = []")
  case True
  have 1: "match_at usage_pattern pv (LBRACK # RBRACK # post) = None" by (rule usage_None(3))
  have 2: "match_at usage_pattern (Some LBRACK) (RBRACK # post) = None"
    by (rule usage_None(2)) simp
  show ?thesis unfolding True using scan_None[OF 1] scan_None[OF 2] by (simp del: scan.simps)
next
  case False
  have "scan usage_pattern pv ((LBRACK # r) @ RBRACK # post) =
      map Gap ((LBRACK # r) @ [RBRACK]) @ scan usage_pattern (Some RBRACK) post"
  proof (rule scan_usage_single_pair)
    show "RBRACK \<notin> set (LBRACK # r)" using assms(2) by simp
  next
    fix k rest
    assume "post = LBRACK # k @ RBRACK # rest" "k \<noteq> []" "RBRACK \<notin> set k"
    with usage_matchI[OF False assms(2), of k pv rest] assms(1) show False by simp
  qed
  then show ?thesis by simp
qed

lemma rewrite_after_empty_text:
  assumes "RBRACK \<notin> set r"
  shows "\<exists>rest. expand (replace_link tbl) (scan usage_pattern pv (usage_text [] r @ post)) =
       usage_text [] r @ rest \<and>
     (post = [] \<or> hd post \<noteq> LBRACK \<longrightarrow>
        rest = expand (replace_link tbl) (scan usage_pattern (Some RBRACK) post))"
proof -
  let ?s = "LBRACK # r @ RBRACK # post"
  have 1: "match_at usage_pattern pv (LBRACK # RBRACK # ?s) = None" by (rule usage_None(3))
  have 2: "match_at usage_pattern (Some LBRACK) (RBRACK # ?s) = None"
    by (rule usage_None(2)) simp
  have sc: "scan usage_pattern pv (usage_text [] r @ post) =
      Gap LBRACK # Gap RBRACK # scan usage_pattern (Some RBRACK) ?s"
    using scan_None[OF 1] scan_None[OF 2] by (simp add: usage_text_def del: scan.simps)
  show ?thesis
  proof (cases "match_at usage_pattern (Some RBRACK) ?s")
    case None
    from scan_usage_pair_None[OF None assms]
    have "expand (replace_link tbl) (scan usage_pattern pv (usage_text [] r @ post)) =
        usage_text [] r @ expand (replace_link tbl) (scan usage_pattern (Some RBRACK) post)"
      unfolding sc by (simp add: usage_text_def expand_append del: scan.simps)
    then show ?thesis by blast
  next
    case (Some a)
    obtain n m where "a = (n, m)" by (cases a)
    with Some have sm: "match_at usage_pattern (Some RBRACK) ?s = Some (n, m)" by simp
    from sm obtain T k rest2 where h:
      "?s = LBRACK # T @ RBRACK # LBRACK # k @ RBRACK # rest2" "RBRACK \<notin> set T"
      "m = \<lparr>group0 = LBRACK # T @ RBRACK # LBRACK # k @ [RBRACK], group1 = T, group2 = k\<rparr>"
      by (rule usage_matchE)
    from h(1) have e: "r @ RBRACK # post = T @ RBRACK # LBRACK # k @ RBRACK # rest2" by simp
    have "takeWhile (\<lambda>x. x \<noteq> RBRACK) (r @ RBRACK # post) = r"
      using assms by (rule until_split(1))
    moreover have "takeWhile (\<lambda>x. x \<noteq> RBRACK) (T @ RBRACK # LBRACK # k @ RBRACK # rest2) = T"
      using h(2) by (rule until_split(1))
    ultimately have T: "T = r" unfolding e by simp
    with e have post: "post = LBRACK # k @ RBRACK # rest2" by simp
    have "\<exists>z. replace_link tbl m = LBRACK # r @ RBRACK # z"
      unfolding h(3) T by (cases "map_of tbl k") (simp_all add: replace_link_def)
    then obtain z where z: "replace_link tbl m = LBRACK # r @ RBRACK # z" by blast
    from match_nonempty(1)[OF sm] have "0 < n" .
    from scan_Some[OF sm this]
    have "expand (replace_link tbl) (scan usage_pattern pv (usage_text [] r @ post)) =
        usage_text [] r @ z @
          expand (replace_link tbl)
            (scan usage_pattern (prev_of (Some RBRACK) (take n ?s)) (drop n ?s))"
      unfolding sc by (simp add: usage_text_def z del: scan.simps)
    moreover have "\<not> (post = [] \<or> hd post \<noteq> LBRACK)" unfolding post by simp
    ultimately show ?thesis by blast
  qed
qed

lemma scan_usage_empty_key_text:
  assumes "RBRACK \<notin> set T"
  shows "scan usage_pattern pv (usage_text T [] @ post) =
     map Gap (usage_text T []) @ scan usage_pattern (Some RBRACK) post"
proof -
  have "scan usage_pattern pv ((LBRACK # T) @ RBRACK # LBRACK # RBRACK # post) =
     map Gap ((LBRACK # T) @ [RBRACK, LBRACK, RBRACK]) @ scan usage_pattern (Some RBRACK) post"
    by (rule scan_usage_empty_key) (use assms in simp)
  then show ?thesis by (simp add: usage_text_def del: scan.simps)
qed

lemma scan_reference_empty_key:
  assumes "NL \<notin> set l"
  shows "scan reference_pattern pv ((LBRACK # RBRACK # COLON # l) @ rest) =
      map Gap (LBRACK # RBRACK # COLON # l) @ scan reference_pattern (prev_of (Some COLON) l) rest"
proof -
  have 1: "match_at reference_pattern pv (LBRACK # RBRACK # COLON # l @ rest) = None"
    by (rule reference_None(4))
  have 2: "scan reference_pattern (Some LBRACK) ((RBRACK # COLON # l) @ rest) =
      map Gap (RBRACK # COLON # l) @
      scan reference_pattern (prev_of (Some LBRACK) (RBRACK # COLON # l)) rest"
    by (rule scan_reference_line) (use assms in \<open>simp_all add: bol_def\<close>)
  have 3: "prev_of (Some LBRACK) (RBRACK # COLON # l) = prev_of (Some COLON) l"
    by (simp add: prev_of_def)
  show ?thesis using scan_None[OF 1] 2 unfolding 3 by (simp del: scan.simps)
qed

text \<open>a scan that copies a text which the scan arrives at\<close>

lemma rewrite_split:
  assumes "scan_reaches usage_pattern None pre s"
  shows "re_sub usage_pattern f (pre @ s) =
     re_sub usage_pattern f pre @ expand f (scan usage_pattern (prev_of None pre) s)"
proof -
  from assms obtain segs where segs: "concat (map seg_text segs) = pre"
    "scan usage_pattern None (pre @ s) = segs @ scan usage_pattern (prev_of None pre) s"
    by (rule reaches_expand)
  have "scan usage_pattern None pre = segs" using segs(2,1) by (rule scan_prefix_usage)
  then show ?thesis unfolding re_sub_def segs(2) by (simp add: expand_append)
qed

lemma rewrite_copies:
  assumes "scan_reaches usage_pattern None pre (L @ post)"
    and "scan usage_pattern (prev_of None pre) (L @ post) = map Gap L @ scan usage_pattern pv post"
  shows "re_sub usage_pattern f (pre @ L @ post) =
     re_sub usage_pattern f pre @ L @ expand f (scan usage_pattern pv post)"
proof -
  from assms(1) obtain segs where segs: "concat (map seg_text segs) = pre"
    "scan usage_pattern None (pre @ L @ post) =
       segs @ scan usage_pattern (prev_of None pre) (L @ post)"
    by (rule reaches_expand)
  have "scan usage_pattern None pre = segs" using segs(2,1) by (rule scan_prefix_usage)
  then show ?thesis unfolding re_sub_def segs(2) assms(2) by (simp add: expand_append)
qed

lemma findall_skips:
  assumes "scan_reaches reference_pattern None pre (L @ post)"
    and "scan reference_pattern (prev_of None pre) (L @ post) =
      map Gap L @ scan reference_pattern pv post"
  shows "re_findall reference_pattern (pre @ L @ post) =
     re_findall reference_pattern pre @ groups_of (scan reference_pattern pv post)"
proof -
  from assms(1) obtain segs where segs: "concat (map seg_text segs) = pre"
    "scan reference_pattern None (pre @ L @ post) =
       segs @ scan reference_pattern (prev_of None pre) (L @ post)"
    by (rule reaches_expand)
  have "scan reference_pattern None pre = segs" using segs(2,1) by (rule scan_prefix_reference)
  then show ?thesis unfolding re_findall_def segs(2) assms(2) by (simp add: groups_of_append)
qed

lemma expand_group0: "expand group0 segs = concat (map seg_text segs)"
proof (induction segs)
  case Nil
  then show ?case by simp
next
  case (Cons sg segs)
  then show ?case by (cases sg) simp_all
qed

lemma re_sub_empty_table: "re_sub usage_pattern (replace_link []) s = s"
proof -
  have "replace_link [] = group0" by (rule ext) (simp add: replace_link_def)
  then show ?thesis by (simp add: re_sub_def expand_group0 scan_text)
qed

lemma output_copies:
  assumes "re_sub usage_pattern (replace_link (dict (re_findall reference_pattern content))) content = a @ L @ b"
    and "scan_reaches reference_pattern None a (L @ b)"
    and "scan reference_pattern (prev_of None a) (L @ b) = map Gap L @ scan reference_pattern pv b"
    and "L \<noteq> []" "\<not> isspace (hd L)" "\<not> isspace (last L)"
  shows "sublist L (output_text content)"
proof (cases "re_findall reference_pattern content = []")
  case True
  then have "\<not> has_definition content" by (simp add: findall_Nil_iff)
  from process_file_no_definition[OF this] have o: "output_text content = content"
    by (simp add: output_text_def)
  from assms(1) have "content = a @ L @ b" unfolding True by (simp add: dict_def re_sub_empty_table)
  then show ?thesis unfolding o by simp
next
  case False
  from output_keeps[OF False assms] show ?thesis .
qed

text \<open>
  Claim C10, as amended.  No group of a match is empty: the table has no empty key and
  no empty value, and no usage match has an empty text or an empty key.  A bracket pair
  without content is not matched where a scan arrives at it, that is, where no earlier
  match covers it.  When the rewriting scan arrives at \<open>[T][]\<close> or at \<open>[][r]\<close>, the
  rewritten text has it unchanged behind the rewritten text before it; the rewritten
  text behind follows \<open>[T][]\<close>, and it follows \<open>[][r]\<close> when no bracket comes next
  (otherwise \<open>[r]\<close> can be the text of the next usage, and stays as the text of its
  link).  When the scan of \<open>re.findall\<close> arrives at a line that starts with \<open>[]:\<close>, the
  line adds no pair to the table.  When the stripping scan arrives, in the rewritten
  text, at \<open>[T][]\<close>, at \<open>[][r]\<close> with a key without line feed, or at \<open>[]:\<close> followed by
  text of the same line that does not end in whitespace, the output has that text.
\<close>

theorem C10_empty_brackets_never_match:
  "(\<forall>k v. map_of (dict (re_findall reference_pattern content)) k = Some v \<longrightarrow> k \<noteq> [] \<and> v \<noteq> []) \<and>
   (\<forall>m. Match m \<in> set (scan usage_pattern None content) \<longrightarrow> group1 m \<noteq> [] \<and> group2 m \<noteq> []) \<and>
   (\<forall>pre T post.
      content = pre @ usage_text T [] @ post \<and> RBRACK \<notin> set T \<and>
      scan_reaches usage_pattern None pre (usage_text T [] @ post) \<longrightarrow>
      re_sub usage_pattern (replace_link (dict (re_findall reference_pattern content))) content =
        re_sub usage_pattern (replace_link (dict (re_findall reference_pattern content))) pre @
        usage_text T [] @
        expand (replace_link (dict (re_findall reference_pattern content)))
          (scan usage_pattern (Some RBRACK) post)) \<and>
   (\<forall>pre r post.
      content = pre @ usage_text [] r @ post \<and> RBRACK \<notin> set r \<and>
      scan_reaches usage_pattern None pre (usage_text [] r @ post) \<longrightarrow>
      (\<exists>rest.
         re_sub usage_pattern (replace_link (dict (re_findall reference_pattern content))) content =
           re_sub usage_pattern (replace_link (dict (re_findall reference_pattern content))) pre @
           usage_text [] r @ rest \<and>
         (post = [] \<or> hd post \<noteq> LBRACK \<longrightarrow>
            rest = expand (replace_link (dict (re_findall reference_pattern content)))
              (scan usage_pattern (Some RBRACK) post)))) \<and>
   (\<forall>pre l post.
      content = pre @ [LBRACK, RBRACK, COLON] @ l @ post \<and> NL \<notin> set l \<and>
      scan_reaches reference_pattern None pre ([LBRACK, RBRACK, COLON] @ l @ post) \<longrightarrow>
      re_findall reference_pattern content =
        re_findall reference_pattern pre @
        groups_of (scan reference_pattern (prev_of (Some COLON) l) post)) \<and>
   (\<forall>a T b.
      re_sub usage_pattern (replace_link (dict (re_findall reference_pattern content))) content =
        a @ usage_text T [] @ b \<and> RBRACK \<notin> set T \<and>
      scan_reaches reference_pattern None a (usage_text T [] @ b) \<longrightarrow>
      sublist (usage_text T []) (output_text content)) \<and>
   (\<forall>a r b.
      re_sub usage_pattern (replace_link (dict (re_findall reference_pattern content))) content =
        a @ usage_text [] r @ b \<and> NL \<notin> set r \<and>
      scan_reaches reference_pattern None a (usage_text [] r @ b) \<longrightarrow>
      sublist (usage_text [] r) (output_text content)) \<and>
   (\<forall>a l b.
      re_sub usage_pattern (replace_link (dict (re_findall reference_pattern content))) content =
        a @ ([LBRACK, RBRACK, COLON] @ l) @ b \<and> NL \<notin> set l \<and> (l = [] \<or> \<not> isspace (last l)) \<and>
      scan_reaches reference_pattern None a (([LBRACK, RBRACK, COLON] @ l) @ b) \<longrightarrow>
      sublist ([LBRACK, RBRACK, COLON] @ l) (output_text content))"
proof (intro conjI allI impI)
  let ?f = "replace_link (dict (re_findall reference_pattern content))"
  let ?x = "re_sub usage_pattern ?f content"
  show "k \<noteq> []" "v \<noteq> []"
    if "map_of (dict (re_findall reference_pattern content)) k = Some v" for k v
  proof -
    from that have "(k, v) \<in> set (re_findall reference_pattern content)" by (rule dict_in_pairs)
    then show "k \<noteq> []" "v \<noteq> []" by (auto elim: findall_reference_origin)
  qed
  show "group1 m \<noteq> []" "group2 m \<noteq> []"
    if "Match m \<in> set (scan usage_pattern None content)" for m
    using usage_seg(2,4)[OF that] .
  show "?x = re_sub usage_pattern ?f pre @ usage_text T [] @
        expand ?f (scan usage_pattern (Some RBRACK) post)"
    if h: "content = pre @ usage_text T [] @ post \<and> RBRACK \<notin> set T \<and>
      scan_reaches usage_pattern None pre (usage_text T [] @ post)" for pre T post
  proof -
    from h have c: "content = pre @ usage_text T [] @ post" and T: "RBRACK \<notin> set T"
      and r: "scan_reaches usage_pattern None pre (usage_text T [] @ post)" by blast+
    have "re_sub usage_pattern ?f (pre @ usage_text T [] @ post) =
        re_sub usage_pattern ?f pre @ usage_text T [] @
        expand ?f (scan usage_pattern (Some RBRACK) post)"
      using r scan_usage_empty_key_text[OF T] by (rule rewrite_copies)
    then show ?thesis unfolding c[symmetric] .
  qed
  show "\<exists>rest. ?x = re_sub usage_pattern ?f pre @ usage_text [] r @ rest \<and>
         (post = [] \<or> hd post \<noteq> LBRACK \<longrightarrow>
            rest = expand ?f (scan usage_pattern (Some RBRACK) post))"
    if h: "content = pre @ usage_text [] r @ post \<and> RBRACK \<notin> set r \<and>
      scan_reaches usage_pattern None pre (usage_text [] r @ post)" for pre r post
  proof -
    from h have c: "content = pre @ usage_text [] r @ post" and k: "RBRACK \<notin> set r"
      and r: "scan_reaches usage_pattern None pre (usage_text [] r @ post)" by blast+
    from rewrite_after_empty_text[OF k, of "dict (re_findall reference_pattern content)"
        "prev_of None pre" post]
    obtain rest where rest:
      "expand ?f (scan usage_pattern (prev_of None pre) (usage_text [] r @ post)) =
         usage_text [] r @ rest"
      "post = [] \<or> hd post \<noteq> LBRACK \<longrightarrow>
         rest = expand ?f (scan usage_pattern (Some RBRACK) post)" by blast
    have "re_sub usage_pattern ?f (pre @ usage_text [] r @ post) =
        re_sub usage_pattern ?f pre @ usage_text [] r @ rest"
      unfolding rewrite_split[OF r] rest(1) ..
    then have "?x = re_sub usage_pattern ?f pre @ usage_text [] r @ rest"
      unfolding c[symmetric] .
    with rest(2) show ?thesis by blast
  qed
  show "re_findall reference_pattern content =
        re_findall reference_pattern pre @
        groups_of (scan reference_pattern (prev_of (Some COLON) l) post)"
    if h: "content = pre @ [LBRACK, RBRACK, COLON] @ l @ post \<and> NL \<notin> set l \<and>
      scan_reaches reference_pattern None pre ([LBRACK, RBRACK, COLON] @ l @ post)" for pre l post
  proof -
    from h have c: "content = pre @ (LBRACK # RBRACK # COLON # l) @ post" and l: "NL \<notin> set l"
      and r: "scan_reaches reference_pattern None pre ((LBRACK # RBRACK # COLON # l) @ post)"
      by simp_all
    have "re_findall reference_pattern (pre @ (LBRACK # RBRACK # COLON # l) @ post) =
        re_findall reference_pattern pre @
        groups_of (scan reference_pattern (prev_of (Some COLON) l) post)"
      using r scan_reference_empty_key[OF l] by (rule findall_skips)
    then show ?thesis unfolding c[symmetric] .
  qed
  show "sublist (usage_text T []) (output_text content)"
    if h: "?x = a @ usage_text T [] @ b \<and> RBRACK \<notin> set T \<and>
      scan_reaches reference_pattern None a (usage_text T [] @ b)" for a T b
  proof -
    from h have x: "?x = a @ usage_text T [] @ b" and T: "RBRACK \<notin> set T"
      and r: "scan_reaches reference_pattern None a (usage_text T [] @ b)" by blast+
    have "scan reference_pattern (prev_of None a) (usage_text T [] @ b) =
        map Gap (usage_text T []) @ scan reference_pattern (Some RBRACK) b"
      by (rule scan_reference_usage) (use T in simp_all)
    from output_copies[OF x r this] show ?thesis by (simp add: usage_text_ends)
  qed
  show "sublist (usage_text [] r) (output_text content)"
    if h: "?x = a @ usage_text [] r @ b \<and> NL \<notin> set r \<and>
      scan_reaches reference_pattern None a (usage_text [] r @ b)" for a r b
  proof -
    from h have x: "?x = a @ usage_text [] r @ b" and k: "NL \<notin> set r"
      and r: "scan_reaches reference_pattern None a (usage_text [] r @ b)" by blast+
    have "scan reference_pattern (prev_of None a) (usage_text [] r @ b) =
        map Gap (usage_text [] r) @ scan reference_pattern (Some RBRACK) b"
      by (rule scan_reference_usage) (use k in simp_all)
    from output_copies[OF x r this] show ?thesis by (simp add: usage_text_ends)
  qed
  show "sublist ([LBRACK, RBRACK, COLON] @ l) (output_text content)"
    if h: "?x = a @ ([LBRACK, RBRACK, COLON] @ l) @ b \<and> NL \<notin> set l \<and>
      (l = [] \<or> \<not> isspace (last l)) \<and>
      scan_reaches reference_pattern None a (([LBRACK, RBRACK, COLON] @ l) @ b)" for a l b
  proof -
    from h have x: "?x = a @ (LBRACK # RBRACK # COLON # l) @ b" and l: "NL \<notin> set l"
      and e: "l = [] \<or> \<not> isspace (last l)"
      and r: "scan_reaches reference_pattern None a ((LBRACK # RBRACK # COLON # l) @ b)"
      by simp_all
    have 1: "LBRACK # RBRACK # COLON # l \<noteq> []" by simp
    have 2: "\<not> isspace (hd (LBRACK # RBRACK # COLON # l))" by simp
    have 3: "\<not> isspace (last (LBRACK # RBRACK # COLON # l))"
      using e by (cases "l = []") (simp_all add: isspace_def COLON_def)
    from output_copies[OF x r scan_reference_empty_key[OF l] 1 2 3] show ?thesis by simp
  qed
qed

text \<open>
  Claim C10 as stated fails.  A bracket pair without content inside a larger match takes
  part in it.  In the first document \<open>[][r]\<close> stands behind a bracket: the usage with the
  text \<open>[\<close> is rewritten, and \<open>[][r]\<close> is not in the output.  In the second \<open>[T][]\<close> stands
  behind \<open>[p]\<close>: the usage \<open>[p][T]\<close> is rewritten.  In the third the line \<open>[]: url\<close> follows
  a line \<open>[a]:\<close> with nothing behind the colon: it is stored as the target of \<open>a\<close> and
  stripped.
\<close>

theorem C10_counterexample:
  "output_text (str_of ''[[][r]\<newline>[r]: u'') = str_of ''[[](u)'' \<and>
   \<not> sublist (usage_text [] (str_of ''r'')) (output_text (str_of ''[[][r]\<newline>[r]: u'')) \<and>
   output_text (str_of ''[p][T][]\<newline>[T]: u'') = str_of ''[p](u)[]'' \<and>
   \<not> sublist (usage_text (str_of ''T'') []) (output_text (str_of ''[p][T][]\<newline>[T]: u'')) \<and>
   dict (re_findall reference_pattern (str_of ''x\<newline>[a]:\<newline>[]: url\<newline>y'')) =
     [(str_of ''a'', str_of ''[]: url'')] \<and>
   output_text (str_of ''x\<newline>[a]:\<newline>[]: url\<newline>y'') = str_of ''x\<newline>\<newline>y'' \<and>
   \<not> sublist (str_of ''[]: url'') (output_text (str_of ''x\<newline>[a]:\<newline>[]: url\<newline>y''))"
  by (simp add: eval_simps sublist_Cons_right)

theorem C10_witness:
  "re_sub usage_pattern
     (replace_link (dict (re_findall reference_pattern (str_of ''[T][] [][r] z\<newline>[]: w\<newline>[r]: u''))))
     (str_of ''[T][] [][r] z\<newline>[]: w\<newline>[r]: u'') = str_of ''[T][] [][r] z\<newline>[]: w\<newline>[r]: u'' \<and>
   dict (re_findall reference_pattern (str_of ''[T][] [][r] z\<newline>[]: w\<newline>[r]: u'')) =
     [(str_of ''r'', str_of ''u'')] \<and>
   scan_reaches reference_pattern None (str_of ''[T][] '')
     (usage_text [] (str_of ''r'') @ str_of '' z\<newline>[]: w\<newline>[r]: u'') \<and>
   scan_reaches reference_pattern None (str_of ''[T][] [][r] z\<newline>'')
     (([LBRACK, RBRACK, COLON] @ str_of '' w'') @ str_of ''\<newline>[r]: u'') \<and>
   sublist (usage_text (str_of ''T'') []) (output_text (str_of ''[T][] [][r] z\<newline>[]: w\<newline>[r]: u'')) \<and>
   sublist (usage_text [] (str_of ''r'')) (output_text (str_of ''[T][] [][r] z\<newline>[]: w\<newline>[r]: u'')) \<and>
   sublist ([LBRACK, RBRACK, COLON] @ str_of '' w'')
     (output_text (str_of ''[T][] [][r] z\<newline>[]: w\<newline>[r]: u'')) \<and>
   output_text (str_of ''[T][] [][r] z\<newline>[]: w\<newline>[r]: u'') = str_of ''[T][] [][r] z\<newline>[]: w''"
proof -
  let ?c = "str_of ''[T][] [][r] z\<newline>[]: w\<newline>[r]: u''"
  let ?x = "re_sub usage_pattern (replace_link (dict (re_findall reference_pattern ?c))) ?c"
  have x: "?x = ?c" by (simp add: eval_simps)
  have d: "dict (re_findall reference_pattern ?c) = [(str_of ''r'', str_of ''u'')]"
    by (simp add: eval_simps)
  have o: "output_text ?c = str_of ''[T][] [][r] z\<newline>[]: w''" by (simp add: eval_simps)
  have x1: "?x = [] @ usage_text (str_of ''T'') [] @ str_of '' [][r] z\<newline>[]: w\<newline>[r]: u''"
    unfolding x by (simp add: eval_simps)
  have T1: "RBRACK \<notin> set (str_of ''T'')" by (simp add: eval_simps)
  have r1: "scan_reaches reference_pattern None []
      (usage_text (str_of ''T'') [] @ str_of '' [][r] z\<newline>[]: w\<newline>[r]: u'')" by simp
  have x2: "?x = str_of ''[T][] '' @ usage_text [] (str_of ''r'') @ str_of '' z\<newline>[]: w\<newline>[r]: u''"
    unfolding x by (simp add: eval_simps)
  have T2: "NL \<notin> set (str_of ''r'')" by (simp add: eval_simps)
  have r2: "scan_reaches reference_pattern None (str_of ''[T][] '')
      (usage_text [] (str_of ''r'') @ str_of '' z\<newline>[]: w\<newline>[r]: u'')"
    unfolding scan_reaches_def by (rule exI[of _ "map Gap (str_of ''[T][] '')"]) (simp add: eval_simps)
  have x3: "?x = str_of ''[T][] [][r] z\<newline>'' @ ([LBRACK, RBRACK, COLON] @ str_of '' w'') @ str_of ''\<newline>[r]: u''"
    unfolding x by (simp add: eval_simps)
  have T3: "NL \<notin> set (str_of '' w'')" "str_of '' w'' = [] \<or> \<not> isspace (last (str_of '' w''))"
    by (simp_all add: eval_simps)
  have r3: "scan_reaches reference_pattern None (str_of ''[T][] [][r] z\<newline>'')
      (([LBRACK, RBRACK, COLON] @ str_of '' w'') @ str_of ''\<newline>[r]: u'')"
    unfolding scan_reaches_def
    by (rule exI[of _ "map Gap (str_of ''[T][] [][r] z\<newline>'')"]) (simp add: eval_simps)
  note t = C10_empty_brackets_never_match[of ?c]
  from t x1 T1 r1 have s1: "sublist (usage_text (str_of ''T'') []) (output_text ?c)" by blast
  from t x2 T2 r2 have s2: "sublist (usage_text [] (str_of ''r'')) (output_text ?c)" by blast
  from t x3 T3 r3 have s3: "sublist ([LBRACK, RBRACK, COLON] @ str_of '' w'') (output_text ?c)"
    by blast
  from x d r2 r3 s1 s2 s3 o show ?thesis by blast
qed









end
